theory Spec2Isabelle
  imports Main "HOL-Library.Multiset" "HOL-Library.Monad_Syntax"
begin

section \<open>Data model of \<^verbatim>\<open>networkGenealogies.ts\<close>\<close>

text \<open>
  The TypeScript objects become records. Optional properties (\<^verbatim>\<open>block?\<close>,
  \<^verbatim>\<open>db?\<close>) and possibly-undefined array entries become \<open>option\<close>. Block heights are
  integers. An \<^verbatim>\<open>IdObject\<close> is \<^verbatim>\<open>{ id }\<close>; the field is called \<open>id'\<close> here because
  \<open>id\<close> is the identity function of HOL. A \<^verbatim>\<open>Network\<close> resource carries an id as well,
  so it extends \<open>IdObject\<close>, and \<^verbatim>\<open>toIdObject\<close> keeps the id only.
\<close>

record Block =
  hash :: string
  height :: int

record IdObject =
  id' :: string

record Network = IdObject +
  historicBlock :: Block

record Db =
  network :: IdObject

record ArtifactNetwork =
  block :: "Block option"
  db :: "Db option"

text \<open>
  \<^verbatim>\<open>NetworkGenealogyInput\<close> is \<^verbatim>\<open>{ ancestor, descendant }\<close>, and
  \<^verbatim>\<open>CollectArtifactNetworksResult\<close> is \<^verbatim>\<open>{ ancestor, descendant, networkGenealogies }\<close>:
  the same two property names with one more, which is a record extension.
\<close>

record NetworkGenealogyInput =
  ancestor :: IdObject
  descendant :: IdObject

record CollectArtifactNetworksResult = NetworkGenealogyInput +
  networkGenealogies :: "NetworkGenealogyInput list"

text \<open>\<^verbatim>\<open>ResultAccumulator = Omit<CollectArtifactNetworksResult, "descendant">\<close>\<close>

record ResultAccumulator =
  acc_ancestor :: IdObject
  acc_networkGenealogies :: "NetworkGenealogyInput list"

record Artifact =
  artifact_networks :: "(string \<rightharpoonup> ArtifactNetwork) option"

record Options =
  networkId :: string
  artifacts :: "Artifact list"

section \<open>The collector: \<^verbatim>\<open>collectArtifactNetworks\<close>\<close>

text \<open>
  The filter callback
  \<^verbatim>\<open>({ block, db: { network } = {} } = {}) => block && network\<close>:
  an undefined entry, a missing \<^verbatim>\<open>block\<close> and a missing \<^verbatim>\<open>db\<close> (hence no
  \<^verbatim>\<open>network\<close>) all give a falsy value.
\<close>

definition validObservation :: "ArtifactNetwork option \<Rightarrow> bool" where
  "validObservation entry =
     (case entry of
        None \<Rightarrow> False
      | Some a \<Rightarrow> (case block a of
                    None \<Rightarrow> False
                  | Some b \<Rightarrow> (case db a of None \<Rightarrow> False | Some d \<Rightarrow> True)))"

text \<open>
  \<^verbatim>\<open>a.block.height\<close> in the comparator and \<^verbatim>\<open>db.network\<close> in the final map are
  read on entries that passed the filter only, where both are present
  (lemma \<open>filter_validObservation_defined\<close>).
\<close>

definition blockHeight :: "ArtifactNetwork option \<Rightarrow> int" where
  "blockHeight entry = height (the (block (the entry)))"

definition networkOf :: "ArtifactNetwork option \<Rightarrow> IdObject" where
  "networkOf entry = network (the (db (the entry)))"

text \<open>
  \<^verbatim>\<open>.filter(...).sort((a, b) => a.block.height - b.block.height)\<close>: the comparator
  orders by height, and \<^verbatim>\<open>Array.prototype.sort\<close> is stable, as is \<open>sort_key\<close>.
\<close>

definition sortedObservations :: "ArtifactNetwork option list \<Rightarrow> ArtifactNetwork option list" where
  "sortedObservations artifactNetworks =
     sort_key blockHeight (filter validObservation artifactNetworks)"

text \<open>The reducer of lines 169--175.\<close>

definition reducer :: "ResultAccumulator \<Rightarrow> IdObject \<Rightarrow> ResultAccumulator" where
  "reducer acc d =
     \<lparr>acc_ancestor = d,
      acc_networkGenealogies =
        acc_networkGenealogies acc @ [\<lparr>ancestor = acc_ancestor acc, descendant = d\<rparr>]\<rparr>"

text \<open>
  \<^verbatim>\<open>return;\<close> on an empty list is \<open>None\<close>. Otherwise \<^verbatim>\<open>networks[0]\<close> is the head,
  \<^verbatim>\<open>networks.slice(1)\<close> the tail and \<^verbatim>\<open>networks.slice(-1)[0]\<close> the last element.
\<close>

definition collectArtifactNetworks ::
    "ArtifactNetwork option list \<Rightarrow> CollectArtifactNetworksResult option" where
  "collectArtifactNetworks artifactNetworks =
     (let networks = map networkOf (sortedObservations artifactNetworks)
      in case networks of
           [] \<Rightarrow> None
         | first # rest \<Rightarrow>
             (let initialAccumulator = \<lparr>acc_ancestor = first, acc_networkGenealogies = []\<rparr>;
                  final = foldl reducer initialAccumulator rest
              in Some \<lparr>ancestor = first,
                       descendant = last networks,
                       networkGenealogies = acc_networkGenealogies final\<rparr>))"

text \<open>
  What the specification calls the adjacent pairs of a sequence: one link per
  consecutive pair. This definition follows the specification's words; it is compared
  with the reduction of the source below.
\<close>

definition adjacentLinks :: "IdObject list \<Rightarrow> NetworkGenealogyInput list" where
  "adjacentLinks ns = map (\<lambda>(a, d). \<lparr>ancestor = a, descendant = d\<rparr>) (zip ns (tl ns))"

section \<open>The collector on arrays in a store\<close>

text \<open>
  In the pure model above nothing can be mutated. To speak about what the collector
  does to the array it is given, the same function once more, with the arrays of the
  source at addresses in a store: an address is an index into the list of arrays
  allocated so far. The array methods behave as in JavaScript: \<^verbatim>\<open>filter\<close>, \<^verbatim>\<open>map\<close>,
  \<^verbatim>\<open>slice\<close>, an array literal and a spread \<^verbatim>\<open>[...xs, x]\<close> allocate a new array;
  \<^verbatim>\<open>sort\<close> sorts the array it is called on in place and returns that same array;
  \<^verbatim>\<open>reduce\<close> and indexing only read. Reading an address that holds no array of the
  expected kind is \<open>None\<close>.
\<close>

datatype array =
    Observations "ArtifactNetwork option list"
  | Networks "IdObject list"
  | Genealogies "NetworkGenealogyInput list"

type_synonym heap = "array list"

text \<open>The result, with the address of the array of links in place of the array.\<close>

record CollectedRef = NetworkGenealogyInput +
  networkGenealogiesAt :: nat

definition alloc :: "array \<Rightarrow> heap \<Rightarrow> nat \<times> heap" where
  "alloc a h = (length h, h @ [a])"

definition observationsAt :: "heap \<Rightarrow> nat \<Rightarrow> ArtifactNetwork option list option" where
  "observationsAt h p =
     (if p < length h then (case h ! p of Observations xs \<Rightarrow> Some xs | _ \<Rightarrow> None) else None)"

definition networksAt :: "heap \<Rightarrow> nat \<Rightarrow> IdObject list option" where
  "networksAt h p =
     (if p < length h then (case h ! p of Networks ns \<Rightarrow> Some ns | _ \<Rightarrow> None) else None)"

definition genealogiesAt :: "heap \<Rightarrow> nat \<Rightarrow> NetworkGenealogyInput list option" where
  "genealogiesAt h p =
     (if p < length h then (case h ! p of Genealogies ls \<Rightarrow> Some ls | _ \<Rightarrow> None) else None)"

definition array_filter :: "heap \<Rightarrow> nat \<Rightarrow> (nat \<times> heap) option" where
  "array_filter h p =
     (case observationsAt h p of
        None \<Rightarrow> None
      | Some xs \<Rightarrow> Some (alloc (Observations (filter validObservation xs)) h))"

definition array_sort :: "heap \<Rightarrow> nat \<Rightarrow> (nat \<times> heap) option" where
  "array_sort h p =
     (case observationsAt h p of
        None \<Rightarrow> None
      | Some xs \<Rightarrow> Some (p, h[p := Observations (sort_key blockHeight xs)]))"

definition array_map :: "heap \<Rightarrow> nat \<Rightarrow> (nat \<times> heap) option" where
  "array_map h p =
     (case observationsAt h p of
        None \<Rightarrow> None
      | Some xs \<Rightarrow> Some (alloc (Networks (map networkOf xs)) h))"

definition array_slice :: "heap \<Rightarrow> nat \<Rightarrow> nat \<Rightarrow> (nat \<times> heap) option" where
  "array_slice h p start =
     (case networksAt h p of
        None \<Rightarrow> None
      | Some ns \<Rightarrow> Some (alloc (Networks (drop start ns)) h))"

definition reducer_heap ::
    "IdObject \<times> nat \<Rightarrow> heap \<Rightarrow> IdObject \<Rightarrow> ((IdObject \<times> nat) \<times> heap) option" where
  "reducer_heap acc h d =
     (case genealogiesAt h (snd acc) of
        None \<Rightarrow> None
      | Some ls \<Rightarrow>
          (let (g, h') = alloc (Genealogies (ls @ [\<lparr>ancestor = fst acc, descendant = d\<rparr>])) h
           in Some ((d, g), h')))"

fun array_reduce ::
    "IdObject \<times> nat \<Rightarrow> heap \<Rightarrow> IdObject list \<Rightarrow> ((IdObject \<times> nat) \<times> heap) option" where
  "array_reduce acc h [] = Some (acc, h)"
| "array_reduce acc h (d # ds) =
     (case reducer_heap acc h d of
        None \<Rightarrow> None
      | Some (acc', h') \<Rightarrow> array_reduce acc' h' ds)"

text \<open>
  The steps are those of lines 145--185: \<^verbatim>\<open>filter\<close>, \<^verbatim>\<open>sort\<close> and \<^verbatim>\<open>map\<close> (145--150),
  the test of the length (153), the array literal of the initial accumulator (163),
  \<^verbatim>\<open>networks.slice(1)\<close> and the reduction over it (168--177), whose reducer allocates
  the extended array of links at each step (174), and \<^verbatim>\<open>networks.slice(-1)[0]\<close> (183).
\<close>

definition collectArtifactNetworks_heap ::
    "heap \<Rightarrow> nat \<Rightarrow> (CollectedRef option \<times> heap) option" where
  "collectArtifactNetworks_heap h artifactNetworks =
     do {
       (filteredAt, h1) \<leftarrow> array_filter h artifactNetworks;
       (sortedAt, h2) \<leftarrow> array_sort h1 filteredAt;
       (networksAt', h3) \<leftarrow> array_map h2 sortedAt;
       ns \<leftarrow> networksAt h3 networksAt';
       if length ns < 1 then Some (None, h3)
       else do {
         let first = ns ! 0;
         let (emptyAt, h4) = alloc (Genealogies []) h3;
         (restAt, h5) \<leftarrow> array_slice h4 networksAt' 1;
         ds \<leftarrow> networksAt h5 restAt;
         (final, h6) \<leftarrow> array_reduce (first, emptyAt) h5 ds;
         (lastAt, h7) \<leftarrow> array_slice h6 networksAt' (length ns - 1);
         ls \<leftarrow> networksAt h7 lastAt;
         Some (Some \<lparr>ancestor = first, descendant = ls ! 0,
                     networkGenealogiesAt = snd final\<rparr>, h7)
       }
     }"

section \<open>The effect contract\<close>

text \<open>
  The process functions are generators: at each \<^verbatim>\<open>yield\<close> they hand an effect to an
  external driver and go on with what the driver answers. The driver is not part of
  the source file, so it is a parameter: a record of three functions, one per kind of
  effect, each of which sees the whole history of effects and answers so far (which
  makes it as general as a deterministic driver can be). Every effect is recorded,
  with its answer, in the \<open>trace\<close> of the \<open>world\<close>; the calls of \<^verbatim>\<open>debug\<close> are
  recorded in \<open>debugLog\<close>.

  A store query and a persist may fail (\<open>Throws\<close>); a chain lookup always resumes, with
  a response that may be absent or carry no \<^verbatim>\<open>result\<close>.
\<close>

datatype relation = Ancestor | Descendant

datatype 'a reply = Throws string | Resumes 'a

record CandidateSearchResult =
  networks :: "Network list"
  alreadyTried :: "string list"

text \<open>
  The resource a store query resumes with: the fragment asks for
  \<^verbatim>\<open>possibleAncestors\<close> or \<^verbatim>\<open>possibleDescendants\<close>, and the source reads the one named
  by the relation.
\<close>

record NetworkResource =
  possibleAncestors :: "CandidateSearchResult option"
  possibleDescendants :: "CandidateSearchResult option"

text \<open>The response to \<^verbatim>\<open>eth_getBlockByNumber\<close>; only \<^verbatim>\<open>result.hash\<close> is read.\<close>

record Web3Response =
  result :: "Block option"

datatype event =
    StoreQuery relation string "string list" "NetworkResource reply"
  | ChainLookup int bool "Web3Response option"
  | Persist "NetworkGenealogyInput list" "IdObject list reply"

record driver =
  storeQuery :: "event list \<Rightarrow> relation \<Rightarrow> string \<Rightarrow> string list \<Rightarrow> NetworkResource reply"
  chainLookup :: "event list \<Rightarrow> int \<Rightarrow> bool \<Rightarrow> Web3Response option"
  persist :: "event list \<Rightarrow> NetworkGenealogyInput list \<Rightarrow> IdObject list reply"

datatype debug_msg =
    DebugNetworkGenealogies "NetworkGenealogyInput list"
  | DebugAncestorAncestor "IdObject option"
  | DebugDescendantDescendant "IdObject option"
  | DebugFinding string
  | DebugError string
  | DebugCandidateNetworks "Network list"

record world =
  trace :: "event list"
  debugLog :: "debug_msg list"

datatype error = TypeError | Thrown string

definition debug :: "debug_msg \<Rightarrow> world \<Rightarrow> world" where
  "debug m w = w\<lparr>debugLog := debugLog w @ [m]\<rparr>"

definition emit :: "event \<Rightarrow> world \<Rightarrow> world" where
  "emit e w = w\<lparr>trace := trace w @ [e]\<rparr>"

text \<open>
  Modelled from the spec: \<^verbatim>\<open>toIdObject\<close> of \<^verbatim>\<open>@truffle/db/project/process\<close> is not
  among the sources; it gives the reference to a resource, which is its id.
\<close>

definition toIdObject :: "Network \<Rightarrow> IdObject" where
  "toIdObject n = \<lparr>id' = id' n\<rparr>"

section \<open>The relation finder\<close>

text \<open>
  The test of lines 303--307:
  \<^verbatim>\<open>response && response.result && response.result.hash === candidate.historicBlock.hash\<close>
\<close>

definition confirms :: "Network \<Rightarrow> Web3Response option \<Rightarrow> bool" where
  "confirms candidate response =
     (case response of
        None \<Rightarrow> False
      | Some r \<Rightarrow> (case result r of
                    None \<Rightarrow> False
                  | Some b \<Rightarrow> hash b = hash (historicBlock candidate)))"

text \<open>\<^verbatim>\<open>findMatchingCandidateOnChain\<close>: the \<^verbatim>\<open>for ... of\<close> loop over the candidates.\<close>

fun findMatchingCandidateOnChain ::
    "driver \<Rightarrow> Network list \<Rightarrow> world \<Rightarrow> IdObject option \<times> world" where
  "findMatchingCandidateOnChain D [] w = (None, w)"
| "findMatchingCandidateOnChain D (candidate # rest) w =
     (let h = height (historicBlock candidate);
          response = chainLookup D (trace w) h False;
          w' = emit (ChainLookup h False response) w
      in if confirms candidate response then (Some (toIdObject candidate), w')
         else findMatchingCandidateOnChain D rest w')"

definition queryName :: "relation \<Rightarrow> string" where
  "queryName relation =
     (if relation = Ancestor then ''possibleAncestors'' else ''possibleDescendants'')"

definition queryField :: "relation \<Rightarrow> NetworkResource \<Rightarrow> CandidateSearchResult option" where
  "queryField relation resource =
     (if relation = Ancestor then possibleAncestors resource else possibleDescendants resource)"

text \<open>
  \<^verbatim>\<open>queryNextPossiblyRelatedNetworks\<close>. Modelled from the spec: \<^verbatim>\<open>resources.get\<close> is not
  among the sources; it is one store-query effect, carrying the relation, the id of
  the anchor network and \<^verbatim>\<open>alreadyTried\<close> (the parameters \<^verbatim>\<open>network\<close> and
  \<^verbatim>\<open>alreadyTried\<close> are \<open>anchor\<close> and \<open>tried\<close> here, the names being those of record
  fields). When the effect fails, the \<^verbatim>\<open>catch\<close> logs the error
  and \<^verbatim>\<open>result\<close> stays undefined; \<^verbatim>\<open>result.networks\<close> in the next statement then raises
  a \<^verbatim>\<open>TypeError\<close>, as it does when the resource lacks the property.
\<close>

definition queryNextPossiblyRelatedNetworks ::
    "driver \<Rightarrow> relation \<Rightarrow> IdObject \<Rightarrow> string list \<Rightarrow> world
       \<Rightarrow> (error + CandidateSearchResult) \<times> world" where
  "queryNextPossiblyRelatedNetworks D relation anchor tried w =
     (let w1 = debug (DebugFinding (queryName relation)) w;
          answer = storeQuery D (trace w1) relation (id' anchor) tried;
          w2 = emit (StoreQuery relation (id' anchor) tried answer) w1;
          (res, w3) =
            (case answer of
               Throws e \<Rightarrow> (None, debug (DebugError e) w2)
             | Resumes resource \<Rightarrow> (queryField relation resource, w2))
      in case res of
           None \<Rightarrow> (Inl TypeError, w3)
         | Some r \<Rightarrow> (Inr r, debug (DebugCandidateNetworks (networks r)) w3))"

text \<open>
  One pass through the body of the \<^verbatim>\<open>do ... while\<close> loop of \<^verbatim>\<open>findRelation\<close>
  (lines 215--232): \<open>Break\<close> leaves the loop, by \<^verbatim>\<open>return\<close>, by an exception or because
  the condition \<^verbatim>\<open>candidates.length > 0\<close> is false; \<open>Again\<close> goes round with the new
  \<^verbatim>\<open>alreadyTried\<close>.
\<close>

datatype step = Break "error + IdObject option" | Again "string list"

definition findRelation_body ::
    "driver \<Rightarrow> relation \<Rightarrow> IdObject \<Rightarrow> string list \<Rightarrow> world \<Rightarrow> step \<times> world" where
  "findRelation_body D relation anchor tried w =
     (case queryNextPossiblyRelatedNetworks D relation anchor tried w of
        (Inl e, w1) \<Rightarrow> (Break (Inl e), w1)
      | (Inr r, w1) \<Rightarrow>
          (let candidates = networks r;
               tried' = alreadyTried r
           in case findMatchingCandidateOnChain D candidates w1 of
                (Some matchingCandidate, w2) \<Rightarrow> (Break (Inr (Some matchingCandidate)), w2)
              | (None, w2) \<Rightarrow>
                  if length candidates > 0 then (Again tried', w2)
                  else (Break (Inr None), w2)))"

text \<open>The loop has no bound, so it is a partial function: \<open>None\<close> is "never returns".\<close>

partial_function (option) findRelation_loop ::
    "driver \<Rightarrow> relation \<Rightarrow> IdObject \<Rightarrow> string list \<Rightarrow> world
       \<Rightarrow> ((error + IdObject option) \<times> world) option" where
  "findRelation_loop D relation anchor tried w =
     (case findRelation_body D relation anchor tried w of
        (Break r, w') \<Rightarrow> Some (r, w')
      | (Again tried', w') \<Rightarrow> findRelation_loop D relation anchor tried' w')"

declare findRelation_loop.simps [code]

definition findRelation ::
    "driver \<Rightarrow> relation \<Rightarrow> IdObject \<Rightarrow> world \<Rightarrow> ((error + IdObject option) \<times> world) option" where
  "findRelation D relation anchor w = findRelation_loop D relation anchor [] w"

text \<open>
  The state at the start of pass \<open>k\<close> of the loop (\<open>None\<close> when the loop has left
  before): used to speak about the passes of a search that may never end.
\<close>

fun findRelation_pass ::
    "driver \<Rightarrow> relation \<Rightarrow> IdObject \<Rightarrow> nat \<Rightarrow> string list \<Rightarrow> world
       \<Rightarrow> (string list \<times> world) option" where
  "findRelation_pass D relation anchor 0 tried w = Some (tried, w)"
| "findRelation_pass D relation anchor (Suc k) tried w =
     (case findRelation_body D relation anchor tried w of
        (Break r, w') \<Rightarrow> None
      | (Again tried', w') \<Rightarrow> findRelation_pass D relation anchor k tried' w')"

text \<open>
  Two readings of a trace: the store queries in it, each as the \<^verbatim>\<open>alreadyTried\<close> it was
  sent with and the answer it got, and the \<^verbatim>\<open>alreadyTried\<close> an answer returns (if it
  returns a batch at all).
\<close>

fun storeQueries :: "event list \<Rightarrow> (string list \<times> NetworkResource reply) list" where
  "storeQueries [] = []"
| "storeQueries (StoreQuery rel n tried a # es) = (tried, a) # storeQueries es"
| "storeQueries (ChainLookup h full a # es) = storeQueries es"
| "storeQueries (Persist inputs a # es) = storeQueries es"

definition returnedTried :: "relation \<Rightarrow> NetworkResource reply \<Rightarrow> string list option" where
  "returnedTried rel a =
     (case a of
        Throws e \<Rightarrow> None
      | Resumes resource \<Rightarrow>
          (case queryField rel resource of None \<Rightarrow> None | Some b \<Rightarrow> Some (alreadyTried b)))"

section \<open>The orchestrator: \<^verbatim>\<open>generateNetworkGenealogiesLoad\<close>\<close>

text \<open>
  Lines 78--80: the artifacts that have an entry for the connected \<^verbatim>\<open>networkId\<close>,
  mapped to that entry. \<^verbatim>\<open>networks[networkId]\<close> is read on artifacts that passed the
  filter only, where \<^verbatim>\<open>networks\<close> is present.
\<close>

definition selectArtifactNetworks :: "Options \<Rightarrow> ArtifactNetwork option list" where
  "selectArtifactNetworks options =
     map (\<lambda>a. (the (artifact_networks a)) (networkId options))
       (filter (\<lambda>a. case artifact_networks a of
                       None \<Rightarrow> False
                     | Some m \<Rightarrow> m (networkId options) \<noteq> None)
          (artifacts options))"

text \<open>
  Modelled from the spec: \<^verbatim>\<open>resources.load\<close> is not among the sources; it is one
  persist effect carrying the inputs, and it returns the identifiers the store
  assigns. A failure of the effect is not caught.
\<close>

definition load :: "driver \<Rightarrow> NetworkGenealogyInput list \<Rightarrow> world \<Rightarrow> (error + IdObject list) \<times> world" where
  "load D inputs w =
     (let answer = persist D (trace w) inputs;
          w' = emit (Persist inputs answer) w
      in (case answer of Throws e \<Rightarrow> Inl (Thrown e) | Resumes ids \<Rightarrow> Inr ids, w'))"

text \<open>
  Line 84 destructures the value of \<^verbatim>\<open>collectArtifactNetworks\<close> without a test:
  on \<^verbatim>\<open>undefined\<close> that raises a \<^verbatim>\<open>TypeError\<close> before anything else happens.
\<close>

definition generateNetworkGenealogiesLoad ::
    "driver \<Rightarrow> Options \<Rightarrow> world \<Rightarrow> ((error + IdObject list) \<times> world) option" where
  "generateNetworkGenealogiesLoad D options w =
     (case collectArtifactNetworks (selectArtifactNetworks options) of
        None \<Rightarrow> Some (Inl TypeError, w)
      | Some collected \<Rightarrow>
          (let links0 = networkGenealogies collected;
               w1 = debug (DebugNetworkGenealogies links0) w
           in case findRelation D Ancestor (ancestor collected) w1 of
                None \<Rightarrow> None
              | Some (Inl e, w2) \<Rightarrow> Some (Inl e, w2)
              | Some (Inr ancestorAncestor, w2) \<Rightarrow>
                  (let w3 = debug (DebugAncestorAncestor ancestorAncestor) w2;
                       links1 =
                         (case ancestorAncestor of
                            None \<Rightarrow> links0
                          | Some aa \<Rightarrow>
                              links0 @ [\<lparr>ancestor = aa, descendant = ancestor collected\<rparr>])
                   in case findRelation D Descendant (descendant collected) w3 of
                        None \<Rightarrow> None
                      | Some (Inl e, w4) \<Rightarrow> Some (Inl e, w4)
                      | Some (Inr descendantDescendant, w4) \<Rightarrow>
                          (let w5 = debug (DebugDescendantDescendant descendantDescendant) w4;
                               links2 =
                                 (case descendantDescendant of
                                    None \<Rightarrow> links1
                                  | Some dd \<Rightarrow>
                                      links1 @
                                        [\<lparr>ancestor = descendant collected, descendant = dd\<rparr>])
                           in Some (load D links2 w5)))))"

section \<open>Concrete inputs and drivers\<close>

definition netA :: IdObject where "netA = \<lparr>id' = ''A''\<rparr>"
definition netB :: IdObject where "netB = \<lparr>id' = ''B''\<rparr>"
definition netC :: IdObject where "netC = \<lparr>id' = ''C''\<rparr>"

definition observation :: "int \<Rightarrow> IdObject \<Rightarrow> ArtifactNetwork option" where
  "observation h n =
     Some \<lparr>block = Some \<lparr>hash = ''0x'', height = h\<rparr>, db = Some \<lparr>network = n\<rparr>\<rparr>"

definition noBlock :: "ArtifactNetwork option" where
  "noBlock = Some \<lparr>block = None, db = Some \<lparr>network = netA\<rparr>\<rparr>"

definition noDb :: "ArtifactNetwork option" where
  "noDb = Some \<lparr>block = Some \<lparr>hash = ''0x'', height = 7\<rparr>, db = None\<rparr>"

text \<open>Heights 10, 20 and 15, in that order of arrival.\<close>

definition scenarioABC :: "ArtifactNetwork option list" where
  "scenarioABC = [observation 10 netA, observation 20 netB, observation 15 netC]"

text \<open>Two artifacts deployed in the same block: the same network, observed twice.\<close>

definition sameBlockTwice :: "ArtifactNetwork option list" where
  "sameBlockTwice = [observation 5 netA, observation 5 netA]"

definition oneValid :: "ArtifactNetwork option list" where
  "oneValid = [None, noBlock, observation 10 netA, noDb]"

definition artifactFor :: "string \<Rightarrow> ArtifactNetwork option \<Rightarrow> Artifact" where
  "artifactFor nid entry = \<lparr>artifact_networks = Some (\<lambda>k. if k = nid then entry else None)\<rparr>"

definition allInvalid :: Options where
  "allInvalid =
     \<lparr>networkId = ''1'',
      artifacts =
        [\<lparr>artifact_networks = None\<rparr>,
         \<lparr>artifact_networks = Some Map.empty\<rparr>,
         artifactFor ''2'' (observation 3 netA),
         artifactFor ''1'' noBlock,
         artifactFor ''1'' noDb]\<rparr>"

definition migration :: Options where
  "migration =
     \<lparr>networkId = ''1'',
      artifacts =
        [artifactFor ''1'' (observation 10 netA),
         \<lparr>artifact_networks = None\<rparr>,
         artifactFor ''1'' (observation 20 netB),
         artifactFor ''2'' (observation 12 netA),
         artifactFor ''1'' (observation 15 netC)]\<rparr>"

definition candidate :: "string \<Rightarrow> string \<Rightarrow> int \<Rightarrow> Network" where
  "candidate i hsh h = \<lparr>id' = i, historicBlock = \<lparr>hash = hsh, height = h\<rparr>\<rparr>"

definition cand5 :: Network where "cand5 = candidate ''n5'' ''0x05'' 5"
definition cand3 :: Network where "cand3 = candidate ''n3'' ''0x03'' 3"
definition cand1 :: Network where "cand1 = candidate ''n1'' ''0x01'' 1"
definition cand30 :: Network where "cand30 = candidate ''n30'' ''0x30'' 30"

definition emptyWorld :: world where
  "emptyWorld = \<lparr>trace = [], debugLog = []\<rparr>"

definition batchOnly :: "CandidateSearchResult \<Rightarrow> NetworkResource" where
  "batchOnly b = \<lparr>possibleAncestors = Some b, possibleDescendants = Some b\<rparr>"

text \<open>
  A chain on which the block at height 3 has hash \<^verbatim>\<open>0x03\<close>, the block at height 5 a
  hash other than the candidate's, the lookup at height 30 carries no result and any
  other lookup gets no response.
\<close>

definition demoChain :: "int \<Rightarrow> Web3Response option" where
  "demoChain h =
     (if h = 3 then Some \<lparr>result = Some \<lparr>hash = ''0x03'', height = 3\<rparr>\<rparr>
      else if h = 5 then Some \<lparr>result = Some \<lparr>hash = ''0xff'', height = 5\<rparr>\<rparr>
      else if h = 30 then Some \<lparr>result = None\<rparr>
      else None)"

text \<open>
  A store that offers, for an ancestor, the candidates at heights 5, 3 and 1 in one
  batch, and for a descendant the candidate at height 30; a batch already offered is
  not offered again, and what it returns as \<^verbatim>\<open>alreadyTried\<close> extends what it was sent.
\<close>

definition demoStore :: "relation \<Rightarrow> string list \<Rightarrow> CandidateSearchResult" where
  "demoStore rel tried =
     (let offer = (if rel = Ancestor then [cand5, cand3, cand1] else [cand30])
      in if set (map id' offer) \<subseteq> set tried
         then \<lparr>networks = [], alreadyTried = tried\<rparr>
         else \<lparr>networks = offer, alreadyTried = tried @ map id' offer\<rparr>)"

definition assignIds :: "NetworkGenealogyInput list \<Rightarrow> IdObject list" where
  "assignIds inputs = map (\<lambda>l. \<lparr>id' = id' (ancestor l) @ ''>'' @ id' (descendant l)\<rparr>) inputs"

definition demoDriver :: driver where
  "demoDriver =
     \<lparr>storeQuery = (\<lambda>tr rel n tried. Resumes (batchOnly (demoStore rel tried))),
      chainLookup = (\<lambda>tr h full. demoChain h),
      persist = (\<lambda>tr inputs. Resumes (assignIds inputs))\<rparr>"

text \<open>A store with nothing to offer, and a chain that does not respond.\<close>

definition quietDriver :: driver where
  "quietDriver =
     \<lparr>storeQuery = (\<lambda>tr rel n tried. Resumes (batchOnly \<lparr>networks = [], alreadyTried = tried\<rparr>)),
      chainLookup = (\<lambda>tr h full. None),
      persist = (\<lambda>tr inputs. Resumes (assignIds inputs))\<rparr>"

text \<open>A store whose queries fail.\<close>

definition failingDriver :: driver where
  "failingDriver =
     \<lparr>storeQuery = (\<lambda>tr rel n tried. Throws ''store down''),
      chainLookup = (\<lambda>tr h full. demoChain h),
      persist = (\<lambda>tr inputs. Resumes (assignIds inputs))\<rparr>"

text \<open>A store that offers the candidate at height 30 again and again.\<close>

definition endlessDriver :: driver where
  "endlessDriver =
     \<lparr>storeQuery =
        (\<lambda>tr rel n tried.
           Resumes (batchOnly \<lparr>networks = [cand30], alreadyTried = tried @ [''n30'']\<rparr>)),
      chainLookup = (\<lambda>tr h full. demoChain h),
      persist = (\<lambda>tr inputs. Resumes (assignIds inputs))\<rparr>"

definition afterTwoLookups :: world where
  "afterTwoLookups =
     \<lparr>trace = [ChainLookup 5 False (demoChain 5), ChainLookup 3 False (demoChain 3)],
      debugLog = []\<rparr>"

definition offer531 :: NetworkResource where
  "offer531 =
     batchOnly \<lparr>networks = [cand5, cand3, cand1], alreadyTried = [''n5'', ''n3'', ''n1'']\<rparr>"

definition offer30 :: NetworkResource where
  "offer30 = batchOnly \<lparr>networks = [cand30], alreadyTried = [''n30'']\<rparr>"

definition nothingLeft :: NetworkResource where
  "nothingLeft = batchOnly \<lparr>networks = [], alreadyTried = [''n30'']\<rparr>"

text \<open>
  The descendant search of \<open>demoDriver\<close> from \<open>netB\<close>: the world after the first pass
  and at the end of the second.
\<close>

definition afterFirstPass :: world where
  "afterFirstPass =
     \<lparr>trace = [StoreQuery Descendant ''B'' [] (Resumes offer30),
               ChainLookup 30 False (Some \<lparr>result = None\<rparr>)],
      debugLog = [DebugFinding ''possibleDescendants'', DebugCandidateNetworks [cand30]]\<rparr>"

definition afterSecondPass :: world where
  "afterSecondPass =
     \<lparr>trace = [StoreQuery Descendant ''B'' [] (Resumes offer30),
               ChainLookup 30 False (Some \<lparr>result = None\<rparr>),
               StoreQuery Descendant ''B'' [''n30''] (Resumes nothingLeft)],
      debugLog = [DebugFinding ''possibleDescendants'', DebugCandidateNetworks [cand30],
                  DebugFinding ''possibleDescendants'', DebugCandidateNetworks []]\<rparr>"

text \<open>The run of the orchestrator on \<open>migration\<close> with \<open>demoDriver\<close>.\<close>

definition linksABC :: "NetworkGenealogyInput list" where
  "linksABC = [\<lparr>ancestor = netA, descendant = netC\<rparr>, \<lparr>ancestor = netC, descendant = netB\<rparr>]"

definition afterAncestorSearch :: world where
  "afterAncestorSearch =
     \<lparr>trace = [StoreQuery Ancestor ''A'' [] (Resumes offer531),
               ChainLookup 5 False (demoChain 5),
               ChainLookup 3 False (demoChain 3)],
      debugLog = [DebugNetworkGenealogies linksABC,
                  DebugFinding ''possibleAncestors'',
                  DebugCandidateNetworks [cand5, cand3, cand1]]\<rparr>"

definition afterDescendantSearch :: world where
  "afterDescendantSearch =
     \<lparr>trace = trace afterAncestorSearch @ trace afterSecondPass,
      debugLog = debugLog afterAncestorSearch
                 @ DebugAncestorAncestor (Some (toIdObject cand3)) # debugLog afterSecondPass\<rparr>"

definition assignedABC :: "IdObject list" where
  "assignedABC = [\<lparr>id' = ''A>C''\<rparr>, \<lparr>id' = ''C>B''\<rparr>, \<lparr>id' = ''n3>A''\<rparr>]"

text \<open>A store that holds another array and then the input of the collector.\<close>

definition demoHeap :: heap where
  "demoHeap = [Networks [netA], Observations scenarioABC]"

section \<open>Properties of the collector\<close>

lemma filter_validObservation_defined:
  "e \<in> set (filter validObservation xs) \<Longrightarrow>
     \<exists>a b d. e = Some a \<and> block a = Some b \<and> db a = Some d"
  by (auto simp: validObservation_def split: option.splits)

lemma reducer_sel:
  "acc_ancestor (reducer acc d) = d"
  "acc_networkGenealogies (reducer acc d) =
     acc_networkGenealogies acc @ [\<lparr>ancestor = acc_ancestor acc, descendant = d\<rparr>]"
  by (simp_all add: reducer_def)

lemma adjacentLinks_simps:
  "adjacentLinks [] = []"
  "adjacentLinks [a] = []"
  "adjacentLinks (a # b # ns) = \<lparr>ancestor = a, descendant = b\<rparr> # adjacentLinks (b # ns)"
  by (simp_all add: adjacentLinks_def)

lemma foldl_reducer:
  "foldl reducer acc ns =
     \<lparr>acc_ancestor = last (acc_ancestor acc # ns),
      acc_networkGenealogies =
        acc_networkGenealogies acc @ adjacentLinks (acc_ancestor acc # ns)\<rparr>"
proof (induction ns arbitrary: acc)
  case Nil
  show ?case by (simp add: adjacentLinks_simps)
next
  case (Cons n ns)
  show ?case
    by (simp add: Cons.IH reducer_sel adjacentLinks_simps)
qed

lemma collectArtifactNetworks_eq:
  "collectArtifactNetworks obs =
     (let ns = map networkOf (sortedObservations obs)
      in if ns = [] then None
         else Some \<lparr>ancestor = hd ns, descendant = last ns,
                    networkGenealogies = adjacentLinks ns\<rparr>)"
  by (simp add: collectArtifactNetworks_def Let_def foldl_reducer split: list.splits)

lemma sortedObservations_props:
  "sorted (map blockHeight (sortedObservations obs))"
  "mset (sortedObservations obs) = mset (filter validObservation obs)"
  "length (sortedObservations obs) = length (filter validObservation obs)"
  "filter (\<lambda>e. blockHeight e = k) (sortedObservations obs) =
     filter (\<lambda>e. blockHeight e = k) (filter validObservation obs)"
  by (simp_all add: sortedObservations_def sort_key_stable)

lemma adjacentLinks_length: "length (adjacentLinks ns) = length ns - 1"
  by (simp add: adjacentLinks_def)

lemma adjacentLinks_nth:
  "Suc i < length ns \<Longrightarrow> adjacentLinks ns ! i = \<lparr>ancestor = ns ! i, descendant = ns ! Suc i\<rparr>"
  by (simp add: adjacentLinks_def nth_tl)

lemma sorted_adjacent_le:
  "sorted (map f xs) \<Longrightarrow> Suc i < length xs \<Longrightarrow> f (xs ! i) \<le> f (xs ! Suc i)"
  using sorted_nth_mono[of "map f xs" i "Suc i"] by simp

lemma sorted_distinct_adjacent_less:
  fixes f :: "'a \<Rightarrow> int"
  assumes "sorted (map f xs)" "distinct (map f xs)" "Suc i < length xs"
  shows "f (xs ! i) < f (xs ! Suc i)"
proof -
  have "f (xs ! i) \<le> f (xs ! Suc i)" using assms sorted_adjacent_le by blast
  moreover have "map f xs ! i \<noteq> map f xs ! Suc i"
    using assms(2,3) by (simp add: nth_eq_iff_index_eq del: nth_map)
  ultimately show ?thesis using assms(3) by simp
qed

lemma distinct_heights_sorted:
  "distinct (map blockHeight (sortedObservations obs)) =
   distinct (map blockHeight (filter validObservation obs))"
proof -
  have "mset (map blockHeight (sortedObservations obs)) =
        mset (map blockHeight (filter validObservation obs))"
    by (simp add: sortedObservations_def)
  then show ?thesis by (metis mset_eq_imp_distinct_iff)
qed

text \<open>
  Claim C1, as amended. The collector discards the invalid entries, sorts the valid
  observations by block height (stably: entries of equal height keep their order) and
  links each observation to the next one. So its links are the adjacent pairs of the
  height-sorted sequence of valid observations, an observation counted as often as it
  occurs: \<open>n\<close> valid observations give \<open>n - 1\<close> links, link \<open>i\<close> joins the networks of
  observations \<open>i\<close> and \<open>i + 1\<close>, whose heights are in order (\<open>\<le>\<close>), and strictly so
  (\<open><\<close>) when the valid observations have pairwise distinct heights.
\<close>

theorem collector_links_adjacent:
  "collectArtifactNetworks obs =
     (if filter validObservation obs = [] then None
      else Some \<lparr>ancestor = networkOf (hd (sortedObservations obs)),
                 descendant = networkOf (last (sortedObservations obs)),
                 networkGenealogies = adjacentLinks (map networkOf (sortedObservations obs))\<rparr>)
   \<and> mset (sortedObservations obs) = mset (filter validObservation obs)
   \<and> sorted (map blockHeight (sortedObservations obs))
   \<and> (\<forall>k. filter (\<lambda>e. blockHeight e = k) (sortedObservations obs) =
           filter (\<lambda>e. blockHeight e = k) (filter validObservation obs))
   \<and> length (adjacentLinks (map networkOf (sortedObservations obs))) =
       length (filter validObservation obs) - 1
   \<and> (\<forall>i. Suc i < length (sortedObservations obs) \<longrightarrow>
         adjacentLinks (map networkOf (sortedObservations obs)) ! i =
           \<lparr>ancestor = networkOf (sortedObservations obs ! i),
            descendant = networkOf (sortedObservations obs ! Suc i)\<rparr>
         \<and> blockHeight (sortedObservations obs ! i) \<le> blockHeight (sortedObservations obs ! Suc i)
         \<and> (distinct (map blockHeight (filter validObservation obs)) \<longrightarrow>
              blockHeight (sortedObservations obs ! i) < blockHeight (sortedObservations obs ! Suc i)))"
proof -
  let ?so = "sortedObservations obs"
  have e: "(?so = []) = (filter validObservation obs = [])"
    using sortedObservations_props(3)[of obs] by (metis length_0_conv)
  have 1: "collectArtifactNetworks obs =
     (if filter validObservation obs = [] then None
      else Some \<lparr>ancestor = networkOf (hd ?so), descendant = networkOf (last ?so),
                 networkGenealogies = adjacentLinks (map networkOf ?so)\<rparr>)"
    by (simp add: collectArtifactNetworks_eq Let_def e hd_map last_map)
  have 5: "length (adjacentLinks (map networkOf ?so)) = length (filter validObservation obs) - 1"
    by (simp add: adjacentLinks_length sortedObservations_props(3))
  have 6: "adjacentLinks (map networkOf ?so) ! i =
           \<lparr>ancestor = networkOf (?so ! i), descendant = networkOf (?so ! Suc i)\<rparr>
         \<and> blockHeight (?so ! i) \<le> blockHeight (?so ! Suc i)
         \<and> (distinct (map blockHeight (filter validObservation obs)) \<longrightarrow>
              blockHeight (?so ! i) < blockHeight (?so ! Suc i))"
    if "Suc i < length ?so" for i
    using that sorted_adjacent_le[OF sortedObservations_props(1) that]
      sorted_distinct_adjacent_less[OF sortedObservations_props(1) _ that]
    by (simp add: adjacentLinks_nth distinct_heights_sorted)
  show ?thesis
    using 1 5 6 sortedObservations_props(1,2,4) by blast
qed

text \<open>
  The scenario of the specification: heights 10 (A), 20 (B) and 15 (C) give the links
  (A, C) and (C, B), with ancestor A and descendant B.
\<close>

theorem collector_links_adjacent_witness:
  "Suc 0 < length (sortedObservations scenarioABC)
   \<and> distinct (map blockHeight (filter validObservation scenarioABC))
   \<and> collectArtifactNetworks scenarioABC =
       Some \<lparr>ancestor = netA, descendant = netB,
             networkGenealogies =
               [\<lparr>ancestor = netA, descendant = netC\<rparr>, \<lparr>ancestor = netC, descendant = netB\<rparr>]\<rparr>
   \<and> blockHeight (sortedObservations scenarioABC ! 0)
       < blockHeight (sortedObservations scenarioABC ! Suc 0)"
proof -
  have h1: "Suc 0 < length (sortedObservations scenarioABC)" by code_simp
  have h2: "distinct (map blockHeight (filter validObservation scenarioABC))" by code_simp
  have h3: "collectArtifactNetworks scenarioABC =
       Some \<lparr>ancestor = netA, descendant = netB,
             networkGenealogies =
               [\<lparr>ancestor = netA, descendant = netC\<rparr>, \<lparr>ancestor = netC, descendant = netB\<rparr>]\<rparr>"
    by code_simp
  from collector_links_adjacent[of scenarioABC] h1 h2
  have "blockHeight (sortedObservations scenarioABC ! 0)
       < blockHeight (sortedObservations scenarioABC ! Suc 0)" by blast
  with h1 h2 h3 show ?thesis by blast
qed

text \<open>
  Claim C1 as stated fails where a network is observed twice (two artifacts deployed
  in the same block): one distinct network, yet one link and not none, and that link
  joins the network to itself, so its ancestor's height is not below its descendant's.
\<close>

theorem collector_self_link_counterexample:
  "collectArtifactNetworks sameBlockTwice =
     Some \<lparr>ancestor = netA, descendant = netA,
           networkGenealogies = [\<lparr>ancestor = netA, descendant = netA\<rparr>]\<rparr>
   \<and> length (networkGenealogies (the (collectArtifactNetworks sameBlockTwice)))
       \<noteq> card (set (map networkOf (filter validObservation sameBlockTwice))) - 1
   \<and> \<not> blockHeight (sortedObservations sameBlockTwice ! 0)
         < blockHeight (sortedObservations sameBlockTwice ! 1)"
  by code_simp

text \<open>
  Claim C8. When exactly one entry of the input is a valid observation, the collector
  returns that observation's network as both ancestor and descendant, and no links.
\<close>

theorem collector_singleton:
  "filter validObservation obs = [e] \<Longrightarrow>
   collectArtifactNetworks obs =
     Some \<lparr>ancestor = networkOf e, descendant = networkOf e, networkGenealogies = []\<rparr>"
  by (simp add: collectArtifactNetworks_eq sortedObservations_def adjacentLinks_simps)

theorem collector_singleton_witness:
  "filter validObservation oneValid = [observation 10 netA]
   \<and> collectArtifactNetworks oneValid =
       Some \<lparr>ancestor = netA, descendant = netA, networkGenealogies = []\<rparr>"
proof -
  have h: "filter validObservation oneValid = [observation 10 netA]" by code_simp
  have n: "networkOf (observation 10 netA) = netA" by code_simp
  from collector_singleton[OF h] n h show ?thesis by simp
qed

section \<open>Properties of the orchestrator on an empty collection\<close>

text \<open>
  Claim C2. When no entry selected for the connected network is a valid observation,
  the collector returns nothing, and the orchestrator then raises a \<^verbatim>\<open>TypeError\<close>
  (line 84 destructures \<^verbatim>\<open>undefined\<close>): it issues no effect, the world is unchanged,
  but it does not return normally.
\<close>

theorem orchestrator_raises_on_no_networks:
  "filter validObservation (selectArtifactNetworks options) = [] \<Longrightarrow>
   collectArtifactNetworks (selectArtifactNetworks options) = None
   \<and> generateNetworkGenealogiesLoad D options w = Some (Inl TypeError, w)"
  by (simp add: generateNetworkGenealogiesLoad_def collectArtifactNetworks_eq sortedObservations_def)

theorem orchestrator_raises_on_no_networks_witness:
  "filter validObservation (selectArtifactNetworks allInvalid) = []
   \<and> collectArtifactNetworks (selectArtifactNetworks allInvalid) = None
   \<and> generateNetworkGenealogiesLoad demoDriver allInvalid emptyWorld =
       Some (Inl TypeError, emptyWorld)"
proof -
  have h: "filter validObservation (selectArtifactNetworks allInvalid) = []" by code_simp
  from orchestrator_raises_on_no_networks[OF h, of demoDriver emptyWorld] h
  show ?thesis by simp
qed

section \<open>The collector does not touch its input\<close>

lemma array_reduce_spec:
  "genealogiesAt h (snd acc) = Some ls \<Longrightarrow>
   \<exists>g ext. array_reduce acc h ds = Some ((last (fst acc # ds), g), h @ ext)
     \<and> genealogiesAt (h @ ext) g = Some (ls @ adjacentLinks (fst acc # ds))"
proof (induction ds arbitrary: acc h ls)
  case Nil
  then show ?case
    by (intro exI[of _ "snd acc"] exI[of _ "[]"]) (simp add: adjacentLinks_simps)
next
  case (Cons d ds)
  let ?ls' = "ls @ [\<lparr>ancestor = fst acc, descendant = d\<rparr>]"
  let ?h' = "h @ [Genealogies ?ls']"
  have r: "reducer_heap acc h d = Some ((d, length h), ?h')"
    using Cons.prems by (simp add: reducer_heap_def alloc_def)
  have "genealogiesAt ?h' (snd (d, length h)) = Some ?ls'"
    by (simp add: genealogiesAt_def)
  from Cons.IH[OF this] obtain g ext where
    "array_reduce (d, length h) ?h' ds = Some ((last (d # ds), g), ?h' @ ext)"
    "genealogiesAt (?h' @ ext) g = Some (?ls' @ adjacentLinks (d # ds))" by auto
  with r show ?case
    by (intro exI[of _ g] exI[of _ "Genealogies ?ls' # ext"]) (simp add: adjacentLinks_simps)
qed

lemma genealogiesAt_append:
  "genealogiesAt h g = Some ls \<Longrightarrow> genealogiesAt (h @ ext) g = Some ls"
  by (auto simp: genealogiesAt_def nth_append split: if_splits)

text \<open>
  Claim C9. Run on a store in which address \<open>p\<close> holds the input array, the collector
  returns, and the store it leaves is the old one followed by newly allocated arrays:
  the input array (and every other array that existed before) is element for element
  what it was. The \<^verbatim>\<open>sort\<close> in place hits the copy that \<^verbatim>\<open>filter\<close> allocated. What
  is returned agrees with the pure model of the collector.
\<close>

theorem collector_leaves_input_unchanged:
  assumes "p < length h" and "h ! p = Observations obs"
  shows "\<exists>res ext. collectArtifactNetworks_heap h p = Some (res, h @ ext)
     \<and> (h @ ext) ! p = Observations obs
     \<and> (case res of
           None \<Rightarrow> collectArtifactNetworks obs = None
         | Some r \<Rightarrow>
             \<exists>links. genealogiesAt (h @ ext) (networkGenealogiesAt r) = Some links
               \<and> collectArtifactNetworks obs =
                   Some \<lparr>ancestor = ancestor r, descendant = descendant r,
                         networkGenealogies = links\<rparr>)"
proof -
  define so where "so = sort_key blockHeight (filter validObservation obs)"
  define ns where "ns = map networkOf so"
  define n where "n = length h"
  have c: "collectArtifactNetworks obs =
     (if ns = [] then None
      else Some \<lparr>ancestor = hd ns, descendant = last ns, networkGenealogies = adjacentLinks ns\<rparr>)"
    by (simp add: collectArtifactNetworks_eq sortedObservations_def ns_def so_def Let_def)
  have 1: "array_filter h p = Some (n, h @ [Observations (filter validObservation obs)])"
    using assms by (simp add: array_filter_def observationsAt_def alloc_def n_def)
  have 2: "array_sort (h @ [Observations (filter validObservation obs)]) n =
             Some (n, h @ [Observations so])"
    by (simp add: array_sort_def observationsAt_def n_def so_def)
  have 3: "array_map (h @ [Observations so]) n = Some (Suc n, h @ [Observations so, Networks ns])"
    by (simp add: array_map_def observationsAt_def alloc_def n_def ns_def)
  let ?h3 = "h @ [Observations so, Networks ns]"
  have 4: "networksAt ?h3 (Suc n) = Some ns"
    by (simp add: networksAt_def n_def nth_append)
  have p3: "?h3 ! p = Observations obs" using assms by (simp add: nth_append)
  show ?thesis
  proof (cases "ns = []")
    case True
    then have "collectArtifactNetworks_heap h p = Some (None, ?h3)"
      using 1 2 3 4 by (simp add: collectArtifactNetworks_heap_def)
    with p3 c True show ?thesis
      by (intro exI[of _ None] exI[of _ "[Observations so, Networks ns]"]) simp
  next
    case False
    let ?h4 = "?h3 @ [Genealogies []]"
    let ?h5 = "?h4 @ [Networks (drop 1 ns)]"
    have 5: "alloc (Genealogies []) ?h3 = (Suc (Suc n), ?h4)"
      by (simp add: alloc_def n_def)
    have 6: "array_slice ?h4 (Suc n) 1 = Some (Suc (Suc (Suc n)), ?h5)"
      by (simp add: array_slice_def networksAt_def alloc_def n_def nth_append)
    have 7: "networksAt ?h5 (Suc (Suc (Suc n))) = Some (drop 1 ns)"
      by (simp add: networksAt_def n_def nth_append)
    have "genealogiesAt ?h5 (snd (ns ! 0, Suc (Suc n))) = Some []"
      by (simp add: genealogiesAt_def n_def nth_append)
    from array_reduce_spec[OF this, of "drop 1 ns"] obtain g ext where
      8: "array_reduce (ns ! 0, Suc (Suc n)) ?h5 (drop 1 ns) =
            Some ((last (ns ! 0 # drop 1 ns), g), ?h5 @ ext)" and
      9: "genealogiesAt (?h5 @ ext) g = Some (adjacentLinks (ns ! 0 # drop 1 ns))"
      by auto
    have ns: "ns ! 0 # drop 1 ns = ns" using False by (cases ns) simp_all
    let ?h6 = "?h5 @ ext"
    let ?h7 = "?h6 @ [Networks (drop (length ns - 1) ns)]"
    have 10: "array_slice ?h6 (Suc n) (length ns - 1) = Some (length ?h6, ?h7)"
      by (simp add: array_slice_def networksAt_def alloc_def n_def nth_append)
    have 11: "networksAt ?h7 (length ?h6) = Some (drop (length ns - 1) ns)"
      by (simp add: networksAt_def nth_append)
    have 12: "genealogiesAt ?h7 g = Some (adjacentLinks ns)"
      using genealogiesAt_append[OF 9] ns by simp
    let ?r = "\<lparr>ancestor = ns ! 0, descendant = drop (length ns - 1) ns ! 0,
               networkGenealogiesAt = g\<rparr>"
    have run: "collectArtifactNetworks_heap h p = Some (Some ?r, ?h7)"
      using 1 2 3 4 5 6 7 8 10 11 False
      by (simp add: collectArtifactNetworks_heap_def)
    have e: "?h7 = h @ ([Observations so, Networks ns, Genealogies [], Networks (drop 1 ns)]
                @ ext @ [Networks (drop (length ns - 1) ns)])" by simp
    have p7: "?h7 ! p = Observations obs" using assms by (simp add: nth_append)
    have r: "collectArtifactNetworks obs =
       Some \<lparr>ancestor = ancestor ?r, descendant = descendant ?r,
             networkGenealogies = adjacentLinks ns\<rparr>"
      using c False by (simp add: hd_conv_nth last_conv_nth)
    show ?thesis
      apply (rule exI[of _ "Some ?r"])
      apply (rule exI[of _ "[Observations so, Networks ns, Genealogies [], Networks (drop 1 ns)]
                @ ext @ [Networks (drop (length ns - 1) ns)]"])
      using run p7 r 12 unfolding e[symmetric] by simp
  qed
qed

theorem collector_leaves_input_unchanged_witness:
  "Suc 0 < length demoHeap \<and> demoHeap ! Suc 0 = Observations scenarioABC
   \<and> (\<exists>res ext. collectArtifactNetworks_heap demoHeap (Suc 0) = Some (res, demoHeap @ ext)
         \<and> (demoHeap @ ext) ! Suc 0 = Observations scenarioABC)
   \<and> map_option (\<lambda>r. r ! 2) (map_option snd (collectArtifactNetworks_heap demoHeap (Suc 0)))
       = Some (Observations [observation 10 netA, observation 15 netC, observation 20 netB])"
proof -
  have h1: "Suc 0 < length demoHeap" by code_simp
  have h2: "demoHeap ! Suc 0 = Observations scenarioABC" by code_simp
  have h3: "map_option (\<lambda>r. r ! 2) (map_option snd (collectArtifactNetworks_heap demoHeap (Suc 0)))
       = Some (Observations [observation 10 netA, observation 15 netC, observation 20 netB])"
    by code_simp
  from collector_leaves_input_unchanged[OF h1 h2] h1 h2 h3 show ?thesis by blast
qed

section \<open>Properties of the relation finder\<close>

subsection \<open>One batch: \<^verbatim>\<open>findMatchingCandidateOnChain\<close>\<close>

lemma confirms_iff:
  "confirms c a \<longleftrightarrow> (\<exists>resp b. a = Some resp \<and> result resp = Some b \<and> hash b = hash (historicBlock c))"
  by (auto simp: confirms_def split: option.splits)

lemma world_trace_append_Nil: "w\<lparr>trace := trace w @ []\<rparr> = (w::world)"
  by simp

lemma emit_then_append: "(emit ev w)\<lparr>trace := trace (emit ev w) @ new\<rparr> = w\<lparr>trace := trace w @ ev # new\<rparr>"
  by (simp add: emit_def)

lemma findMatching_aux:
  "findMatchingCandidateOnChain D cs w = (r, w') \<Longrightarrow>
   \<exists>new. w' = w\<lparr>trace := trace w @ new\<rparr> \<and> length new \<le> length cs
     \<and> (\<forall>j < length new. new ! j =
            ChainLookup (height (historicBlock (cs ! j))) False
              (chainLookup D (trace w @ take j new) (height (historicBlock (cs ! j))) False))
     \<and> (\<forall>j < length new.
            confirms (cs ! j) (chainLookup D (trace w @ take j new) (height (historicBlock (cs ! j))) False)
            \<longleftrightarrow> (Suc j = length new \<and> r = Some (toIdObject (cs ! j))))
     \<and> (r = None \<longrightarrow> length new = length cs)
     \<and> (r \<noteq> None \<longrightarrow> new \<noteq> [] \<and> r = Some (toIdObject (cs ! (length new - 1))))"
proof (induction cs arbitrary: w r w')
  case Nil
  then show ?case by (intro exI[of _ "[]"]) simp
next
  case (Cons c cs)
  define h where "h = height (historicBlock c)"
  define a where "a = chainLookup D (trace w) h False"
  define ev where "ev = ChainLookup h False a"
  show ?case
  proof (cases "confirms c a")
    case True
    with Cons.prems have r: "r = Some (toIdObject c)" and w': "w' = emit ev w"
      by (simp_all add: Let_def h_def a_def ev_def)
    show ?thesis
      using True r w' by (intro exI[of _ "[ev]"]) (simp add: emit_def ev_def a_def h_def)
  next
    case False
    with Cons.prems have "findMatchingCandidateOnChain D cs (emit ev w) = (r, w')"
      by (simp add: Let_def h_def a_def ev_def)
    from Cons.IH[OF this] obtain new where
      1: "w' = (emit ev w)\<lparr>trace := trace (emit ev w) @ new\<rparr>" and
      2: "length new \<le> length cs" and
      3: "\<And>j. j < length new \<Longrightarrow> new ! j =
            ChainLookup (height (historicBlock (cs ! j))) False
              (chainLookup D (trace (emit ev w) @ take j new) (height (historicBlock (cs ! j))) False)" and
      4: "\<And>j. j < length new \<Longrightarrow>
            confirms (cs ! j) (chainLookup D (trace (emit ev w) @ take j new) (height (historicBlock (cs ! j))) False)
            \<longleftrightarrow> (Suc j = length new \<and> r = Some (toIdObject (cs ! j)))" and
      5: "r = None \<longrightarrow> length new = length cs" and
      6: "r \<noteq> None \<longrightarrow> new \<noteq> [] \<and> r = Some (toIdObject (cs ! (length new - 1)))"
      by blast
    have t: "trace (emit ev w) = trace w @ [ev]" by (simp add: emit_def)
    let ?new = "ev # new"
    have c1: "w' = w\<lparr>trace := trace w @ ?new\<rparr>" using 1 by (simp add: emit_then_append)
    have c2: "length ?new \<le> length (c # cs)" using 2 by simp
    have c3: "?new ! j =
            ChainLookup (height (historicBlock ((c # cs) ! j))) False
              (chainLookup D (trace w @ take j ?new) (height (historicBlock ((c # cs) ! j))) False)"
      if "j < length ?new" for j
    proof (cases j)
      case 0
      then show ?thesis by (simp add: ev_def a_def h_def)
    next
      case (Suc i)
      with that 3[of i] show ?thesis by (simp add: t)
    qed
    have c4: "confirms ((c # cs) ! j) (chainLookup D (trace w @ take j ?new) (height (historicBlock ((c # cs) ! j))) False)
            \<longleftrightarrow> (Suc j = length ?new \<and> r = Some (toIdObject ((c # cs) ! j)))"
      if "j < length ?new" for j
    proof (cases j)
      case 0
      have "\<not> (Suc 0 = length ?new \<and> r = Some (toIdObject c))"
        using 6 by (cases r) auto
      with False 0 show ?thesis by (simp add: a_def h_def)
    next
      case (Suc i)
      with that 4[of i] show ?thesis by (simp add: t)
    qed
    have c5: "r = None \<longrightarrow> length ?new = length (c # cs)" using 5 by simp
    have c6: "r \<noteq> None \<longrightarrow> ?new \<noteq> [] \<and> r = Some (toIdObject ((c # cs) ! (length ?new - 1)))"
      using 6 by (cases new) auto
    show ?thesis
      using c1 c2 c3 c4 c5 c6 by (intro exI[of _ ?new]) blast
  qed
qed

text \<open>
  Claim C3. The chain lookups issued for a batch are \<open>new\<close>: lookup \<open>j\<close> is one lookup
  at the recorded height of candidate \<open>j\<close> of the batch, in the order of the batch, and
  is answered by the driver. A lookup returns a block whose hash equals the candidate's
  recorded hash if and only if it is the last lookup issued and its candidate is the
  result: so the first confirmed candidate is returned and no later candidate is
  looked up, and when no candidate is confirmed every candidate has been looked up and
  the result is none.
\<close>

theorem chain_verification_serial:
  assumes "findMatchingCandidateOnChain D cs w = (r, w')"
  shows "\<exists>new. w' = w\<lparr>trace := trace w @ new\<rparr> \<and> length new \<le> length cs
     \<and> (\<forall>j < length new. new ! j =
            ChainLookup (height (historicBlock (cs ! j))) False
              (chainLookup D (trace w @ take j new) (height (historicBlock (cs ! j))) False))
     \<and> (\<forall>j < length new.
            (\<exists>resp b. chainLookup D (trace w @ take j new) (height (historicBlock (cs ! j))) False
                        = Some resp
                      \<and> result resp = Some b \<and> hash b = hash (historicBlock (cs ! j)))
            \<longleftrightarrow> (Suc j = length new \<and> r = Some (toIdObject (cs ! j))))
     \<and> (r = None \<longrightarrow> length new = length cs)
     \<and> (r \<noteq> None \<longrightarrow> new \<noteq> [] \<and> r = Some (toIdObject (cs ! (length new - 1))))"
  using findMatching_aux[OF assms] unfolding confirms_iff .

theorem chain_verification_serial_witness:
  "findMatchingCandidateOnChain demoDriver [cand5, cand3, cand1] emptyWorld =
     (Some (toIdObject cand3), afterTwoLookups)
   \<and> (\<exists>new. afterTwoLookups = emptyWorld\<lparr>trace := trace emptyWorld @ new\<rparr>
          \<and> length new \<le> length [cand5, cand3, cand1] \<and> new \<noteq> []
          \<and> Some (toIdObject cand3) =
              Some (toIdObject ([cand5, cand3, cand1] ! (length new - 1))))"
proof -
  have h: "findMatchingCandidateOnChain demoDriver [cand5, cand3, cand1] emptyWorld =
     (Some (toIdObject cand3), afterTwoLookups)"
    by code_simp
  from chain_verification_serial[OF h] show ?thesis using h by blast
qed


subsection \<open>One query: \<^verbatim>\<open>queryNextPossiblyRelatedNetworks\<close>\<close>

lemma queryNext_cases:
  "queryNextPossiblyRelatedNetworks D rel anchor tried w =
     (case storeQuery D (trace w) rel (id' anchor) tried of
        Throws e \<Rightarrow>
          (Inl TypeError,
           w\<lparr>trace := trace w @ [StoreQuery rel (id' anchor) tried (Throws e)],
             debugLog := debugLog w @ [DebugFinding (queryName rel), DebugError e]\<rparr>)
      | Resumes resource \<Rightarrow>
          (case queryField rel resource of
             None \<Rightarrow>
               (Inl TypeError,
                w\<lparr>trace := trace w @ [StoreQuery rel (id' anchor) tried (Resumes resource)],
                  debugLog := debugLog w @ [DebugFinding (queryName rel)]\<rparr>)
           | Some b \<Rightarrow>
               (Inr b,
                w\<lparr>trace := trace w @ [StoreQuery rel (id' anchor) tried (Resumes resource)],
                  debugLog := debugLog w @
                    [DebugFinding (queryName rel), DebugCandidateNetworks (networks b)]\<rparr>)))"
  by (simp add: queryNextPossiblyRelatedNetworks_def debug_def emit_def Let_def
           split: reply.splits option.splits)

lemma body_cases:
  "findRelation_body D rel anchor tried w =
     (case queryNextPossiblyRelatedNetworks D rel anchor tried w of
        (Inl e, w1) \<Rightarrow> (Break (Inl e), w1)
      | (Inr b, w1) \<Rightarrow>
          (case findMatchingCandidateOnChain D (networks b) w1 of
             (Some m, w2) \<Rightarrow> (Break (Inr (Some m)), w2)
           | (None, w2) \<Rightarrow>
               if networks b = [] then (Break (Inr None), w2) else (Again (alreadyTried b), w2)))"
  by (auto simp: findRelation_body_def Let_def split: prod.splits sum.splits option.splits)

subsection \<open>The loop and its passes\<close>

lemma loop_Break:
  "findRelation_body D rel anchor tried w = (Break r, w') \<Longrightarrow>
   findRelation_loop D rel anchor tried w = Some (r, w')"
  by (subst findRelation_loop.simps) simp

lemma loop_Again:
  "findRelation_body D rel anchor tried w = (Again tried', w') \<Longrightarrow>
   findRelation_loop D rel anchor tried w = findRelation_loop D rel anchor tried' w'"
  by (subst findRelation_loop.simps) simp

lemma pass_loop:
  "findRelation_pass D rel anchor k tried w = Some (tried', w') \<Longrightarrow>
   findRelation_loop D rel anchor tried w = findRelation_loop D rel anchor tried' w'"
proof (induction k arbitrary: tried w)
  case 0
  then show ?case by simp
next
  case (Suc k)
  obtain s w1 where b: "findRelation_body D rel anchor tried w = (s, w1)"
    by (cases "findRelation_body D rel anchor tried w")
  show ?case
  proof (cases s)
    case (Break r)
    with Suc.prems b show ?thesis by simp
  next
    case (Again t1)
    with Suc.prems b have "findRelation_pass D rel anchor k t1 w1 = Some (tried', w')" by simp
    from Suc.IH[OF this] loop_Again[of D rel anchor tried w t1 w1] b Again
    show ?thesis by simp
  qed
qed

lemma pass_Suc_end:
  "findRelation_pass D rel anchor k tried w = Some (t1, w1) \<Longrightarrow>
   findRelation_pass D rel anchor (Suc k) tried w =
     (case findRelation_body D rel anchor t1 w1 of
        (Break r, w') \<Rightarrow> None
      | (Again t2, w2) \<Rightarrow> Some (t2, w2))"
proof (induction k arbitrary: tried w)
  case 0
  then show ?case by (simp split: prod.splits step.splits)
next
  case (Suc k)
  obtain s wa where b: "findRelation_body D rel anchor tried w = (s, wa)"
    by (cases "findRelation_body D rel anchor tried w")
  show ?case
  proof (cases s)
    case (Break r)
    with Suc.prems b show ?thesis by simp
  next
    case (Again ta)
    with Suc.prems b have "findRelation_pass D rel anchor k ta wa = Some (t1, w1)" by simp
    from Suc.IH[OF this] b Again show ?thesis by simp
  qed
qed

lemma loop_returns_pass:
  "findRelation_loop D rel anchor tried w = Some y \<Longrightarrow>
   \<exists>k t1 w1. findRelation_pass D rel anchor k tried w = Some (t1, w1)
     \<and> findRelation_body D rel anchor t1 w1 = (Break (fst y), snd y)"
proof (induction D rel anchor tried w y rule: findRelation_loop.raw_induct[rotated, consumes 1])
  case (1 loop D rel anchor tried w y)
  obtain s w1 where b: "findRelation_body D rel anchor tried w = (s, w1)"
    by (cases "findRelation_body D rel anchor tried w")
  show ?case
  proof (cases s)
    case (Break r)
    with 1(2) b have "y = (r, w1)" by simp
    with b Break have "findRelation_pass D rel anchor 0 tried w = Some (tried, w)
      \<and> findRelation_body D rel anchor tried w = (Break (fst y), snd y)" by simp
    then show ?thesis by blast
  next
    case (Again t1)
    with 1(2) b have "loop D rel anchor t1 w1 = Some y" by simp
    from 1(1)[OF this] obtain k t2 w2 where
      "findRelation_pass D rel anchor k t1 w1 = Some (t2, w2)"
      "findRelation_body D rel anchor t2 w2 = (Break (fst y), snd y)" by blast
    with b Again have "findRelation_pass D rel anchor (Suc k) tried w = Some (t2, w2)
      \<and> findRelation_body D rel anchor t2 w2 = (Break (fst y), snd y)" by simp
    then show ?thesis by blast
  qed
qed

lemma loop_None_iff:
  "findRelation_loop D rel anchor tried w = None \<longleftrightarrow>
   (\<forall>k. findRelation_pass D rel anchor k tried w \<noteq> None)"
proof
  assume n: "findRelation_loop D rel anchor tried w = None"
  show "\<forall>k. findRelation_pass D rel anchor k tried w \<noteq> None"
  proof
    fix k
    show "findRelation_pass D rel anchor k tried w \<noteq> None"
    proof (induction k)
      case 0
      show ?case by simp
    next
      case (Suc k)
      then obtain t1 w1 where p: "findRelation_pass D rel anchor k tried w = Some (t1, w1)"
        by auto
      obtain s w2 where b: "findRelation_body D rel anchor t1 w1 = (s, w2)"
        by (cases "findRelation_body D rel anchor t1 w1")
      have "s \<noteq> Break r" for r
      proof
        assume "s = Break r"
        with b loop_Break have "findRelation_loop D rel anchor t1 w1 = Some (r, w2)" by simp
        with pass_loop[OF p] n show False by simp
      qed
      then obtain t2 where "s = Again t2" by (cases s) auto
      with pass_Suc_end[OF p] b show ?case by simp
    qed
  qed
next
  assume a: "\<forall>k. findRelation_pass D rel anchor k tried w \<noteq> None"
  show "findRelation_loop D rel anchor tried w = None"
  proof (rule ccontr)
    assume "findRelation_loop D rel anchor tried w \<noteq> None"
    then obtain y where "findRelation_loop D rel anchor tried w = Some y" by auto
    from loop_returns_pass[OF this] obtain k t1 w1 where
      p: "findRelation_pass D rel anchor k tried w = Some (t1, w1)" and
      b: "findRelation_body D rel anchor t1 w1 = (Break (fst y), snd y)" by blast
    from pass_Suc_end[OF p] b have "findRelation_pass D rel anchor (Suc k) tried w = None"
      by simp
    with a show False by blast
  qed
qed


text \<open>
  Claim C4. When the store query fails, the query step logs the error and goes on:
  reading \<^verbatim>\<open>result.networks\<close> of the undefined \<^verbatim>\<open>result\<close> raises a \<^verbatim>\<open>TypeError\<close>. The
  error of the store is not what is raised, and the search ends there, with that one
  effect issued.
\<close>

theorem store_failure_becomes_TypeError:
  assumes "storeQuery D (trace w) rel (id' anchor) tried = Throws e"
  shows "queryNextPossiblyRelatedNetworks D rel anchor tried w =
           (Inl TypeError,
            w\<lparr>trace := trace w @ [StoreQuery rel (id' anchor) tried (Throws e)],
              debugLog := debugLog w @ [DebugFinding (queryName rel), DebugError e]\<rparr>)
       \<and> findRelation_loop D rel anchor tried w =
           Some (Inl TypeError,
            w\<lparr>trace := trace w @ [StoreQuery rel (id' anchor) tried (Throws e)],
              debugLog := debugLog w @ [DebugFinding (queryName rel), DebugError e]\<rparr>)"
proof -
  have q: "queryNextPossiblyRelatedNetworks D rel anchor tried w =
           (Inl TypeError,
            w\<lparr>trace := trace w @ [StoreQuery rel (id' anchor) tried (Throws e)],
              debugLog := debugLog w @ [DebugFinding (queryName rel), DebugError e]\<rparr>)"
    by (simp add: queryNext_cases assms)
  then have "findRelation_body D rel anchor tried w =
           (Break (Inl TypeError),
            w\<lparr>trace := trace w @ [StoreQuery rel (id' anchor) tried (Throws e)],
              debugLog := debugLog w @ [DebugFinding (queryName rel), DebugError e]\<rparr>)"
    by (simp add: body_cases)
  from loop_Break[OF this] q show ?thesis by simp
qed

theorem store_failure_becomes_TypeError_witness:
  "storeQuery failingDriver (trace emptyWorld) Ancestor (id' netA) [] = Throws ''store down''
   \<and> findRelation failingDriver Ancestor netA emptyWorld =
       Some (Inl TypeError,
             \<lparr>trace = [StoreQuery Ancestor ''A'' [] (Throws ''store down'')],
              debugLog = [DebugFinding ''possibleAncestors'', DebugError ''store down'']\<rparr>)"
proof -
  have h: "storeQuery failingDriver (trace emptyWorld) Ancestor (id' netA) [] = Throws ''store down''"
    by (simp add: failingDriver_def)
  from store_failure_becomes_TypeError[OF h] h show ?thesis
    by (simp add: findRelation_def emptyWorld_def netA_def queryName_def)
qed

text \<open>
  Claim C5. Whenever the store query of a pass (pass \<open>k\<close>, reached with \<open>tried\<close> in world
  \<open>wk\<close>) returns an empty batch, the search ends with no relation, normally, and that
  pass issues the store query only: no chain lookup. With \<open>k = 0\<close> this is the first
  batch.
\<close>

theorem empty_batch_ends_search:
  assumes "findRelation_pass D rel anchor k [] w = Some (tried, wk)"
      and "storeQuery D (trace wk) rel (id' anchor) tried = Resumes resource"
      and "queryField rel resource = Some batch"
      and "networks batch = []"
  shows "findRelation D rel anchor w =
           Some (Inr None,
                 wk\<lparr>trace := trace wk @ [StoreQuery rel (id' anchor) tried (Resumes resource)],
                    debugLog := debugLog wk @
                      [DebugFinding (queryName rel), DebugCandidateNetworks []]\<rparr>)"
proof -
  have "findRelation_body D rel anchor tried wk =
           (Break (Inr None),
                 wk\<lparr>trace := trace wk @ [StoreQuery rel (id' anchor) tried (Resumes resource)],
                    debugLog := debugLog wk @
                      [DebugFinding (queryName rel), DebugCandidateNetworks []]\<rparr>)"
    by (simp add: body_cases queryNext_cases assms(2,3,4))
  from loop_Break[OF this] pass_loop[OF assms(1)] show ?thesis
    by (simp add: findRelation_def)
qed


theorem empty_batch_ends_search_witness:
  "findRelation_pass demoDriver Descendant netB (Suc 0) [] emptyWorld
     = Some ([''n30''], afterFirstPass)
   \<and> storeQuery demoDriver (trace afterFirstPass) Descendant (id' netB) [''n30'']
     = Resumes nothingLeft
   \<and> queryField Descendant nothingLeft = Some \<lparr>networks = [], alreadyTried = [''n30'']\<rparr>
   \<and> findRelation demoDriver Descendant netB emptyWorld = Some (Inr None, afterSecondPass)
   \<and> findRelation_pass quietDriver Ancestor netA 0 [] emptyWorld = Some ([], emptyWorld)
   \<and> findRelation quietDriver Ancestor netA emptyWorld =
       Some (Inr None,
             \<lparr>trace = [StoreQuery Ancestor ''A'' []
                         (Resumes (batchOnly \<lparr>networks = [], alreadyTried = []\<rparr>))],
              debugLog = [DebugFinding ''possibleAncestors'', DebugCandidateNetworks []]\<rparr>)"
proof -
  have h1: "findRelation_pass demoDriver Descendant netB (Suc 0) [] emptyWorld
     = Some ([''n30''], afterFirstPass)" by code_simp
  have h2: "storeQuery demoDriver (trace afterFirstPass) Descendant (id' netB) [''n30'']
     = Resumes nothingLeft" by code_simp
  have h3: "queryField Descendant nothingLeft = Some \<lparr>networks = [], alreadyTried = [''n30'']\<rparr>"
    by code_simp
  have h4: "networks \<lparr>networks = [], alreadyTried = [''n30'']\<rparr> = []" by simp
  have e: "afterFirstPass\<lparr>trace := trace afterFirstPass @
                 [StoreQuery Descendant (id' netB) [''n30''] (Resumes nothingLeft)],
               debugLog := debugLog afterFirstPass @
                 [DebugFinding (queryName Descendant), DebugCandidateNetworks []]\<rparr>
           = afterSecondPass" by code_simp
  have k1: "findRelation_pass quietDriver Ancestor netA 0 [] emptyWorld = Some ([], emptyWorld)"
    by simp
  have k2: "storeQuery quietDriver (trace emptyWorld) Ancestor (id' netA) []
     = Resumes (batchOnly \<lparr>networks = [], alreadyTried = []\<rparr>)" by code_simp
  have k3: "queryField Ancestor (batchOnly \<lparr>networks = [], alreadyTried = []\<rparr>)
     = Some \<lparr>networks = [], alreadyTried = []\<rparr>" by code_simp
  have k4: "networks \<lparr>networks = [], alreadyTried = []\<rparr> = []" by simp
  have e2: "emptyWorld\<lparr>trace := trace emptyWorld @
                 [StoreQuery Ancestor (id' netA) []
                    (Resumes (batchOnly \<lparr>networks = [], alreadyTried = []\<rparr>))],
               debugLog := debugLog emptyWorld @
                 [DebugFinding (queryName Ancestor), DebugCandidateNetworks []]\<rparr>
           = \<lparr>trace = [StoreQuery Ancestor ''A'' []
                         (Resumes (batchOnly \<lparr>networks = [], alreadyTried = []\<rparr>))],
              debugLog = [DebugFinding ''possibleAncestors'', DebugCandidateNetworks []]\<rparr>"
    by code_simp
  from empty_batch_ends_search[OF h1 h2 h3 h4] empty_batch_ends_search[OF k1 k2 k3 k4]
    h1 h2 h3 k1 e e2
  show ?thesis by simp
qed

subsection \<open>The store queries of a search\<close>

lemma storeQueries_append: "storeQueries (xs @ ys) = storeQueries xs @ storeQueries ys"
  by (induction xs rule: storeQueries.induct) simp_all

lemma findMatching_trace:
  "findMatchingCandidateOnChain D cs w = (r, w') \<Longrightarrow>
   \<exists>new. w' = w\<lparr>trace := trace w @ new\<rparr>
     \<and> (\<forall>e \<in> set new. \<exists>h a. e = ChainLookup h False a)"
proof (induction cs arbitrary: w)
  case Nil
  then show ?case by (intro exI[of _ "[]"]) simp
next
  case (Cons c cs)
  define ev where
    "ev = ChainLookup (height (historicBlock c)) False
            (chainLookup D (trace w) (height (historicBlock c)) False)"
  show ?case
  proof (cases "confirms c (chainLookup D (trace w) (height (historicBlock c)) False)")
    case True
    with Cons.prems have "w' = emit ev w" by (simp add: Let_def ev_def)
    then show ?thesis by (intro exI[of _ "[ev]"]) (simp add: emit_def ev_def)
  next
    case False
    with Cons.prems have "findMatchingCandidateOnChain D cs (emit ev w) = (r, w')"
      by (simp add: Let_def ev_def)
    from Cons.IH[OF this] obtain new where
      "w' = (emit ev w)\<lparr>trace := trace (emit ev w) @ new\<rparr>"
      "\<forall>e \<in> set new. \<exists>h a. e = ChainLookup h False a" by blast
    then show ?thesis
      by (intro exI[of _ "ev # new"]) (simp add: emit_then_append ev_def)
  qed
qed

lemma only_lookups_no_queries:
  "\<forall>e \<in> set new. \<exists>h a. e = ChainLookup h False a \<Longrightarrow> storeQueries new = []"
  by (induction new rule: storeQueries.induct) auto

lemma body_trace:
  assumes "findRelation_body D rel anchor t w = (s, w')"
  shows "\<exists>rest. trace w' =
            trace w @ StoreQuery rel (id' anchor) t (storeQuery D (trace w) rel (id' anchor) t) # rest
     \<and> (\<forall>e \<in> set rest. \<exists>h a. e = ChainLookup h False a)
     \<and> (\<forall>t'. s = Again t' \<longrightarrow>
           returnedTried rel (storeQuery D (trace w) rel (id' anchor) t) = Some t')"
proof (cases "queryNextPossiblyRelatedNetworks D rel anchor t w")
  case (Pair q w1)
  show ?thesis
  proof (cases q)
    case (Inl e)
    with Pair assms have "s = Break (Inl e)" "w' = w1" by (simp_all add: body_cases)
    moreover from Pair have
      "trace w1 = trace w @ [StoreQuery rel (id' anchor) t (storeQuery D (trace w) rel (id' anchor) t)]"
      by (auto simp: queryNext_cases split: reply.splits option.splits)
    ultimately show ?thesis by simp
  next
    case (Inr b)
    from Pair Inr have
      t1: "trace w1 = trace w @ [StoreQuery rel (id' anchor) t (storeQuery D (trace w) rel (id' anchor) t)]"
      and rt: "returnedTried rel (storeQuery D (trace w) rel (id' anchor) t) = Some (alreadyTried b)"
      by (auto simp: queryNext_cases returnedTried_def split: reply.splits option.splits)
    obtain m w2 where f: "findMatchingCandidateOnChain D (networks b) w1 = (m, w2)"
      by (cases "findMatchingCandidateOnChain D (networks b) w1")
    from findMatching_trace[OF f] obtain new where
      n: "w2 = w1\<lparr>trace := trace w1 @ new\<rparr>" "\<forall>e \<in> set new. \<exists>h a. e = ChainLookup h False a"
      by blast
    from Pair Inr f assms have w': "w' = w2" and s: "\<forall>t'. s = Again t' \<longrightarrow> t' = alreadyTried b"
      by (auto simp: body_cases split: option.splits if_splits)
    from n(1) t1 w' have
      "trace w' = trace w @ StoreQuery rel (id' anchor) t (storeQuery D (trace w) rel (id' anchor) t) # new"
      by simp
    with n(2) s rt show ?thesis by auto
  qed
qed

lemma threaded_aux:
  assumes "findRelation_pass D rel anchor k t0 w = Some (tried, wk)"
      and "findRelation_body D rel anchor tried wk = (s, w')"
  shows "\<exists>new. trace w' = trace w @ new \<and> length (storeQueries new) = Suc k
     \<and> fst (storeQueries new ! 0) = t0
     \<and> (\<forall>i<k. returnedTried rel (snd (storeQueries new ! i)) = Some (fst (storeQueries new ! Suc i)))
     \<and> (\<forall>i\<le>k. \<exists>tr. snd (storeQueries new ! i) =
                      storeQuery D tr rel (id' anchor) (fst (storeQueries new ! i)))
     \<and> (\<forall>e \<in> set new. \<forall>inputs a. e \<noteq> Persist inputs a)
     \<and> fst (storeQueries new ! k) = tried"
  using assms
proof (induction k arbitrary: t0 w)
  case 0
  then have b: "findRelation_body D rel anchor t0 w = (s, w')" and tt: "tried = t0" by simp_all
  from body_trace[OF b] obtain rest where
    r: "trace w' = trace w @ StoreQuery rel (id' anchor) t0 (storeQuery D (trace w) rel (id' anchor) t0) # rest"
       "\<forall>e \<in> set rest. \<exists>h a. e = ChainLookup h False a" by blast
  let ?new = "StoreQuery rel (id' anchor) t0 (storeQuery D (trace w) rel (id' anchor) t0) # rest"
  have q: "storeQueries ?new = [(t0, storeQuery D (trace w) rel (id' anchor) t0)]"
    using only_lookups_no_queries[OF r(2)] by simp
  have "\<forall>e \<in> set ?new. \<forall>inputs a. e \<noteq> Persist inputs a" using r(2) by auto
  with r(1) q tt show ?case by (intro exI[of _ ?new]) (simp, blast)
next
  case (Suc k)
  obtain s1 w1 where b: "findRelation_body D rel anchor t0 w = (s1, w1)"
    by (cases "findRelation_body D rel anchor t0 w")
  with Suc.prems(1) obtain t1 where s1: "s1 = Again t1"
    and p: "findRelation_pass D rel anchor k t1 w1 = Some (tried, wk)"
    by (cases s1) auto
  define a0 where "a0 = storeQuery D (trace w) rel (id' anchor) t0"
  from body_trace[OF b] s1 obtain rest where
    r: "trace w1 = trace w @ StoreQuery rel (id' anchor) t0 a0 # rest"
       "\<forall>e \<in> set rest. \<exists>h a. e = ChainLookup h False a"
       "returnedTried rel a0 = Some t1" unfolding a0_def by blast
  from Suc.IH[OF p Suc.prems(2)] obtain new1 where
    n: "trace w' = trace w1 @ new1" "length (storeQueries new1) = Suc k"
       "fst (storeQueries new1 ! 0) = t1"
       "\<forall>i<k. returnedTried rel (snd (storeQueries new1 ! i)) = Some (fst (storeQueries new1 ! Suc i))"
       "\<forall>i\<le>k. \<exists>tr. snd (storeQueries new1 ! i) =
                      storeQuery D tr rel (id' anchor) (fst (storeQueries new1 ! i))"
       "\<forall>e \<in> set new1. \<forall>inputs a. e \<noteq> Persist inputs a"
       "fst (storeQueries new1 ! k) = tried" by blast
  let ?new = "StoreQuery rel (id' anchor) t0 a0 # rest @ new1"
  have q: "storeQueries ?new = (t0, a0) # storeQueries new1"
    using only_lookups_no_queries[OF r(2)] by (simp add: storeQueries_append)
  have c1: "trace w' = trace w @ ?new" using n(1) r(1) by simp
  have c2: "length (storeQueries ?new) = Suc (Suc k)" using q n(2) by simp
  have c3: "fst (storeQueries ?new ! 0) = t0" using q by simp
  have c4: "returnedTried rel (snd (storeQueries ?new ! i)) = Some (fst (storeQueries ?new ! Suc i))"
    if "i < Suc k" for i
  proof (cases i)
    case 0
    then show ?thesis using q r(3) n(3) by simp
  next
    case (Suc j)
    with that n(4) q show ?thesis by simp
  qed
  have c5: "\<exists>tr. snd (storeQueries ?new ! i) =
                      storeQuery D tr rel (id' anchor) (fst (storeQueries ?new ! i))"
    if "i \<le> Suc k" for i
  proof (cases i)
    case 0
    then show ?thesis using q a0_def by auto
  next
    case (Suc j)
    with that n(5) q show ?thesis by simp
  qed
  have c6: "\<forall>e \<in> set ?new. \<forall>inputs a. e \<noteq> Persist inputs a" using r(2) n(6) by auto
  have c7: "fst (storeQueries ?new ! Suc k) = tried" using q n(7) by simp
  show ?case using c1 c2 c3 c4 c5 c6 c7 by (intro exI[of _ ?new]) blast
qed

lemma chain_subset:
  fixes qs :: "(string list \<times> 'b) list"
  assumes "\<forall>i<k. set (fst (qs ! i)) \<subseteq> set (fst (qs ! Suc i))"
  shows "i \<le> j \<Longrightarrow> j \<le> k \<Longrightarrow> set (fst (qs ! i)) \<subseteq> set (fst (qs ! j))"
proof (induction j)
  case 0
  then show ?case by simp
next
  case (Suc j)
  show ?case
  proof (cases "i = Suc j")
    case True
    then show ?thesis by simp
  next
    case False
    with Suc.prems have "i \<le> j" "j < k" by simp_all
    with Suc.IH assms show ?thesis by (meson Suc_leD Suc_le_eq order_trans)
  qed
qed

text \<open>
  Claim C6. Take a search that has gone through \<open>k\<close> passes (so that it goes on from
  \<open>tried\<close> in world \<open>wk\<close>) and one more pass after them, whatever its outcome. It has issued \<open>k + 1\<close> store queries. The first was sent
  the empty \<^verbatim>\<open>alreadyTried\<close>; each later one was sent exactly the \<^verbatim>\<open>alreadyTried\<close> that
  the answer to the one before returned. If the store returns a superset of what it
  was sent, the \<^verbatim>\<open>alreadyTried\<close> of an earlier query is contained in that of every
  later one.
\<close>

theorem alreadyTried_threaded:
  assumes "findRelation_pass D rel anchor k [] w = Some (tried, wk)"
      and "findRelation_body D rel anchor tried wk = (s, w')"
  shows "findRelation D rel anchor w = findRelation_loop D rel anchor tried wk
     \<and> (\<exists>new. trace w' = trace w @ new \<and> length (storeQueries new) = Suc k
     \<and> fst (storeQueries new ! 0) = []
     \<and> fst (storeQueries new ! k) = tried
     \<and> (\<forall>i<k. returnedTried rel (snd (storeQueries new ! i)) = Some (fst (storeQueries new ! Suc i)))
     \<and> ((\<forall>tr t resource b.
            storeQuery D tr rel (id' anchor) t = Resumes resource \<longrightarrow>
            queryField rel resource = Some b \<longrightarrow> set t \<subseteq> set (alreadyTried b))
         \<longrightarrow> (\<forall>i j. i \<le> j \<and> j \<le> k \<longrightarrow>
                set (fst (storeQueries new ! i)) \<subseteq> set (fst (storeQueries new ! j)))))"
proof -
  have start: "findRelation D rel anchor w = findRelation_loop D rel anchor tried wk"
    using pass_loop[OF assms(1)] by (simp add: findRelation_def)
  from threaded_aux[OF assms] obtain new where
    n: "trace w' = trace w @ new" "length (storeQueries new) = Suc k"
       "fst (storeQueries new ! 0) = []"
       "\<forall>i<k. returnedTried rel (snd (storeQueries new ! i)) = Some (fst (storeQueries new ! Suc i))"
       "\<forall>i\<le>k. \<exists>tr. snd (storeQueries new ! i) =
                      storeQuery D tr rel (id' anchor) (fst (storeQueries new ! i))"
       "fst (storeQueries new ! k) = tried"
    by blast
  have mono: "\<forall>i j. i \<le> j \<and> j \<le> k \<longrightarrow>
                set (fst (storeQueries new ! i)) \<subseteq> set (fst (storeQueries new ! j))"
    if g: "\<forall>tr t resource b.
            storeQuery D tr rel (id' anchor) t = Resumes resource \<longrightarrow>
            queryField rel resource = Some b \<longrightarrow> set t \<subseteq> set (alreadyTried b)"
  proof -
    have adj: "\<forall>i<k. set (fst (storeQueries new ! i)) \<subseteq> set (fst (storeQueries new ! Suc i))"
    proof (intro allI impI)
      fix i assume i: "i < k"
      with n(5) obtain tr where
        a: "snd (storeQueries new ! i) = storeQuery D tr rel (id' anchor) (fst (storeQueries new ! i))"
        by (meson less_imp_le)
      from n(4) i have
        "returnedTried rel (snd (storeQueries new ! i)) = Some (fst (storeQueries new ! Suc i))"
        by blast
      then obtain resource b where
        "snd (storeQueries new ! i) = Resumes resource" "queryField rel resource = Some b"
        "alreadyTried b = fst (storeQueries new ! Suc i)"
        by (auto simp: returnedTried_def split: reply.splits option.splits)
      with a g show "set (fst (storeQueries new ! i)) \<subseteq> set (fst (storeQueries new ! Suc i))"
        by metis
    qed
    from chain_subset[OF adj] show ?thesis by blast
  qed
  from n(1,2,3,4,6) mono start show ?thesis by blast
qed


lemma demoDriver_superset:
  "\<forall>tr t resource b.
      storeQuery demoDriver tr rel n t = Resumes resource \<longrightarrow>
      queryField rel resource = Some b \<longrightarrow> set t \<subseteq> set (alreadyTried b)"
  by (auto simp: demoDriver_def demoStore_def batchOnly_def queryField_def Let_def
           split: if_splits)

theorem alreadyTried_threaded_witness:
  "findRelation_pass demoDriver Descendant netB (Suc 0) [] emptyWorld
     = Some ([''n30''], afterFirstPass)
   \<and> findRelation_body demoDriver Descendant netB [''n30''] afterFirstPass
     = (Break (Inr None), afterSecondPass)
   \<and> (\<exists>new. trace afterSecondPass = trace emptyWorld @ new
         \<and> length (storeQueries new) = Suc (Suc 0)
         \<and> fst (storeQueries new ! 0) = []
         \<and> fst (storeQueries new ! Suc 0) = [''n30'']
         \<and> returnedTried Descendant (snd (storeQueries new ! 0))
             = Some (fst (storeQueries new ! Suc 0))
         \<and> set (fst (storeQueries new ! 0)) \<subseteq> set (fst (storeQueries new ! Suc 0)))"
proof -
  have h1: "findRelation_pass demoDriver Descendant netB (Suc 0) [] emptyWorld
     = Some ([''n30''], afterFirstPass)" by code_simp
  have h2: "findRelation_body demoDriver Descendant netB [''n30''] afterFirstPass
     = (Break (Inr None), afterSecondPass)" by code_simp
  note g = demoDriver_superset[of Descendant "id' netB"]
  from alreadyTried_threaded[OF h1 h2] g obtain new where
    "trace afterSecondPass = trace emptyWorld @ new"
    "length (storeQueries new) = Suc (Suc 0)"
    "fst (storeQueries new ! 0) = []"
    "fst (storeQueries new ! Suc 0) = [''n30'']"
    "\<forall>i<Suc 0. returnedTried Descendant (snd (storeQueries new ! i))
             = Some (fst (storeQueries new ! Suc i))"
    "\<forall>i j. i \<le> j \<and> j \<le> Suc 0 \<longrightarrow>
        set (fst (storeQueries new ! i)) \<subseteq> set (fst (storeQueries new ! j))"
    by blast
  then have "\<exists>new. trace afterSecondPass = trace emptyWorld @ new
         \<and> length (storeQueries new) = Suc (Suc 0)
         \<and> fst (storeQueries new ! 0) = []
         \<and> fst (storeQueries new ! Suc 0) = [''n30'']
         \<and> returnedTried Descendant (snd (storeQueries new ! 0))
             = Some (fst (storeQueries new ! Suc 0))
         \<and> set (fst (storeQueries new ! 0)) \<subseteq> set (fst (storeQueries new ! Suc 0))"
    by (intro exI[of _ new]) simp
  with h1 h2 show ?thesis by blast
qed

subsection \<open>Termination\<close>

lemma body_returns_iff:
  "(\<exists>r w'. findRelation_body D rel anchor tried w = (Break (Inr r), w')) \<longleftrightarrow>
   (\<exists>batch w1. queryNextPossiblyRelatedNetworks D rel anchor tried w = (Inr batch, w1)
      \<and> (networks batch = [] \<or> fst (findMatchingCandidateOnChain D (networks batch) w1) \<noteq> None))"
  by (auto simp: body_cases split: prod.splits sum.splits option.splits if_splits)

lemma body_again_iff:
  "(\<exists>t2 w2. findRelation_body D rel anchor tried w = (Again t2, w2)) \<longleftrightarrow>
   (\<exists>batch w1. queryNextPossiblyRelatedNetworks D rel anchor tried w = (Inr batch, w1)
      \<and> networks batch \<noteq> [] \<and> fst (findMatchingCandidateOnChain D (networks batch) w1) = None)"
  by (auto simp: body_cases split: prod.splits sum.splits option.splits if_splits)

text \<open>
  Claim C10. The loop has no bound of its own. A search returns normally if and only
  if some pass is reached whose batch is empty or contains a candidate that the chain
  confirms; it never returns if and only if every pass is reached and gets a batch
  that is not empty and has no candidate that the chain confirms.
\<close>

theorem findRelation_termination:
  "((\<exists>r w'. findRelation D rel anchor w = Some (Inr r, w')) \<longleftrightarrow>
      (\<exists>k tried wk batch w1.
          findRelation_pass D rel anchor k [] w = Some (tried, wk)
        \<and> queryNextPossiblyRelatedNetworks D rel anchor tried wk = (Inr batch, w1)
        \<and> (networks batch = []
            \<or> fst (findMatchingCandidateOnChain D (networks batch) w1) \<noteq> None)))
   \<and> (findRelation D rel anchor w = None \<longleftrightarrow>
      (\<forall>k. \<exists>tried wk batch w1.
          findRelation_pass D rel anchor k [] w = Some (tried, wk)
        \<and> queryNextPossiblyRelatedNetworks D rel anchor tried wk = (Inr batch, w1)
        \<and> networks batch \<noteq> []
        \<and> fst (findMatchingCandidateOnChain D (networks batch) w1) = None))"
proof (intro conjI iffI)
  assume "\<exists>r w'. findRelation D rel anchor w = Some (Inr r, w')"
  then obtain r w' where "findRelation_loop D rel anchor [] w = Some (Inr r, w')"
    by (auto simp: findRelation_def)
  from loop_returns_pass[OF this] obtain k t1 w1 where
    p: "findRelation_pass D rel anchor k [] w = Some (t1, w1)" and
    b: "findRelation_body D rel anchor t1 w1 = (Break (Inr r), w')" by auto
  from b body_returns_iff[of D rel anchor t1 w1] obtain batch w2 where
    "queryNextPossiblyRelatedNetworks D rel anchor t1 w1 = (Inr batch, w2)"
    "networks batch = [] \<or> fst (findMatchingCandidateOnChain D (networks batch) w2) \<noteq> None"
    by blast
  with p show "\<exists>k tried wk batch w1.
          findRelation_pass D rel anchor k [] w = Some (tried, wk)
        \<and> queryNextPossiblyRelatedNetworks D rel anchor tried wk = (Inr batch, w1)
        \<and> (networks batch = []
            \<or> fst (findMatchingCandidateOnChain D (networks batch) w1) \<noteq> None)" by blast
next
  assume "\<exists>k tried wk batch w1.
          findRelation_pass D rel anchor k [] w = Some (tried, wk)
        \<and> queryNextPossiblyRelatedNetworks D rel anchor tried wk = (Inr batch, w1)
        \<and> (networks batch = []
            \<or> fst (findMatchingCandidateOnChain D (networks batch) w1) \<noteq> None)"
  then obtain k tried wk batch w1 where
    p: "findRelation_pass D rel anchor k [] w = Some (tried, wk)" and
    q: "queryNextPossiblyRelatedNetworks D rel anchor tried wk = (Inr batch, w1)
        \<and> (networks batch = []
            \<or> fst (findMatchingCandidateOnChain D (networks batch) w1) \<noteq> None)" by blast
  from q body_returns_iff[of D rel anchor tried wk] obtain r w' where
    "findRelation_body D rel anchor tried wk = (Break (Inr r), w')" by blast
  from loop_Break[OF this] pass_loop[OF p]
  show "\<exists>r w'. findRelation D rel anchor w = Some (Inr r, w')"
    by (simp add: findRelation_def)
next
  assume "findRelation D rel anchor w = None"
  then have a: "\<forall>k. findRelation_pass D rel anchor k [] w \<noteq> None"
    by (simp add: findRelation_def loop_None_iff)
  show "\<forall>k. \<exists>tried wk batch w1.
          findRelation_pass D rel anchor k [] w = Some (tried, wk)
        \<and> queryNextPossiblyRelatedNetworks D rel anchor tried wk = (Inr batch, w1)
        \<and> networks batch \<noteq> []
        \<and> fst (findMatchingCandidateOnChain D (networks batch) w1) = None"
  proof
    fix k
    from a obtain tried wk where p: "findRelation_pass D rel anchor k [] w = Some (tried, wk)"
      by (metis not_None_eq surj_pair)
    from a have "findRelation_pass D rel anchor (Suc k) [] w \<noteq> None" by blast
    with pass_Suc_end[OF p] have "\<exists>t2 w2. findRelation_body D rel anchor tried wk = (Again t2, w2)"
      by (auto split: prod.splits step.splits)
    with body_again_iff[of D rel anchor tried wk] p
    show "\<exists>tried wk batch w1.
          findRelation_pass D rel anchor k [] w = Some (tried, wk)
        \<and> queryNextPossiblyRelatedNetworks D rel anchor tried wk = (Inr batch, w1)
        \<and> networks batch \<noteq> []
        \<and> fst (findMatchingCandidateOnChain D (networks batch) w1) = None" by blast
  qed
next
  assume "\<forall>k. \<exists>tried wk batch w1.
          findRelation_pass D rel anchor k [] w = Some (tried, wk)
        \<and> queryNextPossiblyRelatedNetworks D rel anchor tried wk = (Inr batch, w1)
        \<and> networks batch \<noteq> []
        \<and> fst (findMatchingCandidateOnChain D (networks batch) w1) = None"
  then have "\<forall>k. findRelation_pass D rel anchor k [] w \<noteq> None" by fastforce
  then show "findRelation D rel anchor w = None"
    by (simp add: findRelation_def loop_None_iff)
qed

lemma endless_again:
  "\<exists>batch w1. queryNextPossiblyRelatedNetworks endlessDriver rel anchor tried w = (Inr batch, w1)
      \<and> networks batch \<noteq> []
      \<and> fst (findMatchingCandidateOnChain endlessDriver (networks batch) w1) = None"
  by (simp add: queryNext_cases endlessDriver_def batchOnly_def queryField_def
        cand30_def candidate_def demoChain_def confirms_def Let_def)

lemma endless_pass:
  "findRelation_pass endlessDriver rel anchor k tried w \<noteq> None"
proof (induction k)
  case 0
  show ?case by simp
next
  case (Suc k)
  then obtain t1 w1 where p: "findRelation_pass endlessDriver rel anchor k tried w = Some (t1, w1)"
    by auto
  from endless_again[of rel anchor t1 w1] body_again_iff[of endlessDriver rel anchor t1 w1]
  obtain t2 w2 where "findRelation_body endlessDriver rel anchor t1 w1 = (Again t2, w2)"
    by blast
  with pass_Suc_end[OF p] show ?case by simp
qed

lemma endless_every_pass:
  "\<forall>k. \<exists>tried wk batch w1.
          findRelation_pass endlessDriver rel anchor k [] w = Some (tried, wk)
        \<and> queryNextPossiblyRelatedNetworks endlessDriver rel anchor tried wk = (Inr batch, w1)
        \<and> networks batch \<noteq> []
        \<and> fst (findMatchingCandidateOnChain endlessDriver (networks batch) w1) = None"
proof
  fix k
  from endless_pass[of rel anchor k "[]" w] obtain tried wk where
    "findRelation_pass endlessDriver rel anchor k [] w = Some (tried, wk)" by auto
  with endless_again[of rel anchor tried wk]
  show "\<exists>tried wk batch w1.
          findRelation_pass endlessDriver rel anchor k [] w = Some (tried, wk)
        \<and> queryNextPossiblyRelatedNetworks endlessDriver rel anchor tried wk = (Inr batch, w1)
        \<and> networks batch \<noteq> []
        \<and> fst (findMatchingCandidateOnChain endlessDriver (networks batch) w1) = None"
    by blast
qed

theorem findRelation_termination_witness:
  "(\<exists>k tried wk batch w1.
          findRelation_pass demoDriver Ancestor netA k [] emptyWorld = Some (tried, wk)
        \<and> queryNextPossiblyRelatedNetworks demoDriver Ancestor netA tried wk = (Inr batch, w1)
        \<and> fst (findMatchingCandidateOnChain demoDriver (networks batch) w1) \<noteq> None)
   \<and> (\<exists>r w'. findRelation demoDriver Ancestor netA emptyWorld = Some (Inr r, w'))
   \<and> (\<forall>k. \<exists>tried wk batch w1.
          findRelation_pass endlessDriver Descendant netB k [] emptyWorld = Some (tried, wk)
        \<and> queryNextPossiblyRelatedNetworks endlessDriver Descendant netB tried wk = (Inr batch, w1)
        \<and> networks batch \<noteq> []
        \<and> fst (findMatchingCandidateOnChain endlessDriver (networks batch) w1) = None)
   \<and> findRelation endlessDriver Descendant netB emptyWorld = None"
proof -
  have h: "findRelation_pass demoDriver Ancestor netA 0 [] emptyWorld = Some ([], emptyWorld)
     \<and> queryNextPossiblyRelatedNetworks demoDriver Ancestor netA [] emptyWorld
         = (Inr (demoStore Ancestor []),
            snd (queryNextPossiblyRelatedNetworks demoDriver Ancestor netA [] emptyWorld))
     \<and> fst (findMatchingCandidateOnChain demoDriver (networks (demoStore Ancestor []))
              (snd (queryNextPossiblyRelatedNetworks demoDriver Ancestor netA [] emptyWorld)))
         \<noteq> None"
    by code_simp
  then have a0: "\<exists>k tried wk batch w1.
          findRelation_pass demoDriver Ancestor netA k [] emptyWorld = Some (tried, wk)
        \<and> queryNextPossiblyRelatedNetworks demoDriver Ancestor netA tried wk = (Inr batch, w1)
        \<and> fst (findMatchingCandidateOnChain demoDriver (networks batch) w1) \<noteq> None"
    by blast
  then have a: "\<exists>k tried wk batch w1.
          findRelation_pass demoDriver Ancestor netA k [] emptyWorld = Some (tried, wk)
        \<and> queryNextPossiblyRelatedNetworks demoDriver Ancestor netA tried wk = (Inr batch, w1)
        \<and> (networks batch = []
            \<or> fst (findMatchingCandidateOnChain demoDriver (networks batch) w1) \<noteq> None)"
    by blast
  note b = endless_every_pass[of Descendant netB emptyWorld]
  from findRelation_termination[of demoDriver Ancestor netA emptyWorld] a
  have c: "\<exists>r w'. findRelation demoDriver Ancestor netA emptyWorld = Some (Inr r, w')"
    by blast
  from findRelation_termination[of endlessDriver Descendant netB emptyWorld] b
  have d: "findRelation endlessDriver Descendant netB emptyWorld = None"
    by blast
  from a0 b c d show ?thesis by blast
qed

section \<open>Properties of the orchestrator\<close>

lemma findRelation_trace:
  assumes "findRelation D rel anchor w = Some (r, w')"
  shows "\<exists>new. trace w' = trace w @ new \<and> (\<forall>e \<in> set new. \<forall>inputs a. e \<noteq> Persist inputs a)"
proof -
  from assms have "findRelation_loop D rel anchor [] w = Some (r, w')"
    by (simp add: findRelation_def)
  from loop_returns_pass[OF this] obtain k t1 w1 where
    "findRelation_pass D rel anchor k [] w = Some (t1, w1)"
    "findRelation_body D rel anchor t1 w1 = (Break r, w')" by auto
  from threaded_aux[OF this] show ?thesis by blast
qed

text \<open>
  Claim C7, as amended. When the collector returns \<open>collected\<close> and both searches
  return normally (neither ends in an exception, neither goes on for ever), the
  ancestor search is the one anchored at \<open>ancestor collected\<close> and the descendant search
  the one anchored at \<open>descendant collected\<close>; what is found by the first is appended as
  the link from the found network to the collected ancestor, what is found by the
  second as the link from the collected descendant to the found network. All links go
  into one persist effect, the only one of the run and its last effect, and what the
  store answers is returned as it is.
\<close>

theorem orchestrator_links_and_persist:
  assumes "collectArtifactNetworks (selectArtifactNetworks options) = Some collected"
      and "findRelation D Ancestor (ancestor collected)
             (debug (DebugNetworkGenealogies (networkGenealogies collected)) w)
           = Some (Inr ancestorAncestor, w2)"
      and "findRelation D Descendant (descendant collected)
             (debug (DebugAncestorAncestor ancestorAncestor) w2)
           = Some (Inr descendantDescendant, w4)"
  shows "let links =
               networkGenealogies collected
               @ (case ancestorAncestor of
                    None \<Rightarrow> []
                  | Some aa \<Rightarrow> [\<lparr>ancestor = aa, descendant = ancestor collected\<rparr>])
               @ (case descendantDescendant of
                    None \<Rightarrow> []
                  | Some dd \<Rightarrow> [\<lparr>ancestor = descendant collected, descendant = dd\<rparr>]);
             w5 = debug (DebugDescendantDescendant descendantDescendant) w4;
             answer = persist D (trace w5) links
         in generateNetworkGenealogiesLoad D options w =
              Some (case answer of Throws e \<Rightarrow> Inl (Thrown e) | Resumes ids \<Rightarrow> Inr ids,
                    w5\<lparr>trace := trace w5 @ [Persist links answer]\<rparr>)
            \<and> (\<exists>found. trace w5 = trace w @ found
                  \<and> (\<forall>e \<in> set found. \<forall>inputs a. e \<noteq> Persist inputs a))"
proof -
  from findRelation_trace[OF assms(2)] obtain new1 where
    1: "trace w2 = trace w @ new1" "\<forall>e \<in> set new1. \<forall>inputs a. e \<noteq> Persist inputs a"
    by (auto simp: debug_def)
  from findRelation_trace[OF assms(3)] obtain new2 where
    2: "trace w4 = trace w2 @ new2" "\<forall>e \<in> set new2. \<forall>inputs a. e \<noteq> Persist inputs a"
    by (auto simp: debug_def)
  have t: "\<exists>found. trace (debug (DebugDescendantDescendant descendantDescendant) w4) = trace w @ found
                  \<and> (\<forall>e \<in> set found. \<forall>inputs a. e \<noteq> Persist inputs a)"
    using 1 2 by (intro exI[of _ "new1 @ new2"]) (auto simp: debug_def)
  have g: "generateNetworkGenealogiesLoad D options w =
     Some (load D
       (networkGenealogies collected
               @ (case ancestorAncestor of
                    None \<Rightarrow> []
                  | Some aa \<Rightarrow> [\<lparr>ancestor = aa, descendant = ancestor collected\<rparr>])
               @ (case descendantDescendant of
                    None \<Rightarrow> []
                  | Some dd \<Rightarrow> [\<lparr>ancestor = descendant collected, descendant = dd\<rparr>]))
       (debug (DebugDescendantDescendant descendantDescendant) w4))"
    using assms
    by (simp add: generateNetworkGenealogiesLoad_def Let_def split: option.splits)
  show ?thesis
    using g t by (simp add: Let_def load_def emit_def)
qed


theorem orchestrator_links_and_persist_witness:
  "collectArtifactNetworks (selectArtifactNetworks migration) =
     Some \<lparr>ancestor = netA, descendant = netB, networkGenealogies = linksABC\<rparr>
   \<and> findRelation demoDriver Ancestor netA (debug (DebugNetworkGenealogies linksABC) emptyWorld)
     = Some (Inr (Some (toIdObject cand3)), afterAncestorSearch)
   \<and> findRelation demoDriver Descendant netB
       (debug (DebugAncestorAncestor (Some (toIdObject cand3))) afterAncestorSearch)
     = Some (Inr None, afterDescendantSearch)
   \<and> generateNetworkGenealogiesLoad demoDriver migration emptyWorld =
       Some (Inr assignedABC,
         (debug (DebugDescendantDescendant None) afterDescendantSearch)
           \<lparr>trace := trace afterDescendantSearch @
              [Persist (linksABC @ [\<lparr>ancestor = toIdObject cand3, descendant = netA\<rparr>])
                 (Resumes assignedABC)]\<rparr>)"
proof -
  let ?c = "\<lparr>ancestor = netA, descendant = netB, networkGenealogies = linksABC\<rparr>"
  have h1: "collectArtifactNetworks (selectArtifactNetworks migration) = Some ?c"
    by code_simp
  have h2: "findRelation demoDriver Ancestor netA
              (debug (DebugNetworkGenealogies (networkGenealogies ?c)) emptyWorld)
     = Some (Inr (Some (toIdObject cand3)), afterAncestorSearch)" by code_simp
  have h3: "findRelation demoDriver Descendant netB
       (debug (DebugAncestorAncestor (Some (toIdObject cand3))) afterAncestorSearch)
     = Some (Inr None, afterDescendantSearch)" by code_simp
  have p: "persist demoDriver tr (linksABC @ [\<lparr>ancestor = toIdObject cand3, descendant = netA\<rparr>])
           = Resumes assignedABC" for tr
    by (simp add: demoDriver_def assignIds_def assignedABC_def linksABC_def netA_def netB_def
          netC_def toIdObject_def cand3_def candidate_def)
  from orchestrator_links_and_persist[of migration ?c demoDriver emptyWorld
         "Some (toIdObject cand3)" afterAncestorSearch None afterDescendantSearch]
       h1 h2 h3
  have "generateNetworkGenealogiesLoad demoDriver migration emptyWorld =
       Some (Inr assignedABC,
         (debug (DebugDescendantDescendant None) afterDescendantSearch)
           \<lparr>trace := trace afterDescendantSearch @
              [Persist (linksABC @ [\<lparr>ancestor = toIdObject cand3, descendant = netA\<rparr>])
                 (Resumes assignedABC)]\<rparr>)"
    by (simp add: Let_def p debug_def)
  with h1 h2 h3 show ?thesis by simp
qed

text \<open>
  Claim C7 as stated, for every run in which the collector yields a result, fails
  where a search does not return normally. On \<open>migration\<close> the collector yields the
  links (A, C) and (C, B). With a store whose queries fail, the ancestor search raises
  a \<^verbatim>\<open>TypeError\<close> and so does the run: one store query, no descendant search, no
  persist effect, nothing returned. With a store that offers an unconfirmable
  candidate again and again, the ancestor search never returns, nor does the run.
\<close>

theorem orchestrator_search_fails_counterexample:
  "collectArtifactNetworks (selectArtifactNetworks migration) =
     Some \<lparr>ancestor = netA, descendant = netB, networkGenealogies = linksABC\<rparr>
   \<and> generateNetworkGenealogiesLoad failingDriver migration emptyWorld =
       Some (Inl TypeError,
             \<lparr>trace = [StoreQuery Ancestor ''A'' [] (Throws ''store down'')],
              debugLog = [DebugNetworkGenealogies linksABC,
                          DebugFinding ''possibleAncestors'',
                          DebugError ''store down'']\<rparr>)
   \<and> generateNetworkGenealogiesLoad endlessDriver migration emptyWorld = None"
proof -
  have h1: "collectArtifactNetworks (selectArtifactNetworks migration) =
     Some \<lparr>ancestor = netA, descendant = netB, networkGenealogies = linksABC\<rparr>"
    by code_simp
  have h2: "generateNetworkGenealogiesLoad failingDriver migration emptyWorld =
       Some (Inl TypeError,
             \<lparr>trace = [StoreQuery Ancestor ''A'' [] (Throws ''store down'')],
              debugLog = [DebugNetworkGenealogies linksABC,
                          DebugFinding ''possibleAncestors'',
                          DebugError ''store down'']\<rparr>)"
    by code_simp
  have "findRelation endlessDriver Ancestor netA w = None" for w
    by (simp add: findRelation_def loop_None_iff endless_pass)
  with h1 have h3: "generateNetworkGenealogiesLoad endlessDriver migration emptyWorld = None"
    by (simp add: generateNetworkGenealogiesLoad_def Let_def)
  from h1 h2 h3 show ?thesis by simp
qed

end
